theory Spec2Isabelle
  imports Complex_Main "HOL-Library.Word" "HOL-Library.AList" "HOL-Library.Char_ord"
    "HOL-Library.List_Lexorder"
begin

unbundle bit_operations_syntax

section \<open>Conventions of the embedding\<close>

text \<open>
  The development embeds the TypeScript sources of bsv-anchors:
  \<^verbatim>\<open>src/merkle/tree.ts\<close>, \<^verbatim>\<open>src/store/anchor-store.ts\<close>, \<^verbatim>\<open>src/store/database.ts\<close>,
  \<^verbatim>\<open>src/p2p/protocol.ts\<close> and \<^verbatim>\<open>src/p2p/handler.ts\<close>.

  \<^item> A JavaScript string is a \<open>string\<close>; a \<open>char\<close> stands for a UTF-16 code unit below 256.
  \<^item> JavaScript numbers that hold counts, levels and indices are \<open>nat\<close> or \<open>int\<close>; the
    double arithmetic of the source agrees with them below \<open>2^53\<close> (below \<open>2^31\<close> for the
    bitwise \<open>^\<close>), far above the number of entries a \<open>Map\<close> can hold.
  \<^item> A method that mutates its object returns the object after the call together with
    what the call returned or threw: \<open>(error + 'a) \<times> state\<close>, where \<open>Inl\<close> is the exception.
    The state of a call that threw is the state the exception left behind.
  \<^item> SHA-256 (\<^verbatim>\<open>@noble/hashes/sha256\<close>) is a parameter \<open>sha\<close> of every function that hashes;
    what is assumed of it is stated where it is used.
\<close>

type_synonym byte = "8 word"
type_synonym sha256 = "byte list \<Rightarrow> byte list"

datatype error =
    HexError                \<comment> \<open>\<^verbatim>\<open>hexToBytes\<close>: odd length or a character that is no hex digit\<close>
  | TreeStateError nat nat  \<comment> \<open>\<^verbatim>\<open>Invalid tree state at level L, index I\<close>\<close>
  | EmptyTreeError          \<comment> \<open>\<^verbatim>\<open>Cannot anchor empty tree\<close>\<close>
  | ConstraintError         \<comment> \<open>SQLite: a PRIMARY KEY, UNIQUE or NOT NULL constraint failed\<close>
  | IOError                 \<comment> \<open>SQLite: the write could not be done\<close>

section \<open>Hex strings and hashing (\<^verbatim>\<open>src/merkle/tree.ts\<close>)\<close>

text \<open>\<^verbatim>\<open>bytesToHex\<close> and \<^verbatim>\<open>hexToBytes\<close> of \<^verbatim>\<open>@noble/hashes/utils\<close>: two lowercase digits per
  byte; decoding accepts both cases and throws on an odd length or a non-digit.\<close>

definition hexDigit :: "nat \<Rightarrow> char" where
  "hexDigit n = ''0123456789abcdef'' ! n"

definition bytesToHex :: "byte list \<Rightarrow> string" where
  "bytesToHex bytes = concat (map (\<lambda>b. [hexDigit (unat b div 16), hexDigit (unat b mod 16)]) bytes)"

definition hexVal :: "char \<Rightarrow> nat option" where
  "hexVal c =
     (let n = (of_char c :: nat)
      in if 48 \<le> n \<and> n \<le> 57 then Some (n - 48)
         else if 65 \<le> n \<and> n \<le> 70 then Some (n - 55)
         else if 97 \<le> n \<and> n \<le> 102 then Some (n - 87)
         else None)"

fun hexToBytes :: "string \<Rightarrow> error + byte list" where
  "hexToBytes [] = Inr []"
| "hexToBytes [c] = Inl HexError"
| "hexToBytes (hi # lo # rest) =
     (case (hexVal hi, hexVal lo) of
        (Some h, Some l) \<Rightarrow>
          (case hexToBytes rest of
             Inl e \<Rightarrow> Inl e
           | Inr bytes \<Rightarrow> Inr (of_nat (16 * h + l) # bytes))
      | _ \<Rightarrow> Inl HexError)"

text \<open>\<^verbatim>\<open>new TextEncoder().encode(data)\<close>: UTF-8, here for code units below 256.\<close>

definition utf8Encode :: "string \<Rightarrow> byte list" where
  "utf8Encode s =
     concat (map (\<lambda>c. let n = (of_char c :: nat)
                       in if n < 128 then [of_nat n]
                          else [of_nat (192 + n div 64), of_nat (128 + n mod 64)]) s)"

text \<open>The argument of \<^verbatim>\<open>hashLeaf\<close> and \<^verbatim>\<open>addLeaf\<close> is \<^verbatim>\<open>Uint8Array | string\<close>.\<close>

datatype leaf_data = Bytes "byte list" | Text string

definition hashLeaf :: "sha256 \<Rightarrow> leaf_data \<Rightarrow> string" where
  "hashLeaf sha data =
     (let input = (case data of Text s \<Rightarrow> utf8Encode s | Bytes bs \<Rightarrow> bs);
          prefixed = 0 # input
      in bytesToHex (sha prefixed))"

definition hashInternal :: "sha256 \<Rightarrow> string \<Rightarrow> string \<Rightarrow> error + string" where
  "hashInternal sha left right =
     (case hexToBytes (left @ right) of
        Inl e \<Rightarrow> Inl e
      | Inr combined \<Rightarrow> Inr (bytesToHex (sha (1 # combined))))"

definition hashSingle :: "sha256 \<Rightarrow> string \<Rightarrow> error + string" where
  "hashSingle sha h = hashInternal sha h h"

section \<open>The Merkle tree (\<^verbatim>\<open>class MerkleTree\<close>)\<close>

text \<open>\<^verbatim>\<open>nodes: Map<number, Map<number, string>>\<close> is an association list of association
  lists: a JavaScript \<^verbatim>\<open>Map\<close> keeps its keys in insertion order, and \<^verbatim>\<open>set\<close> on a present key
  replaces the value in place, as \<open>AList.update\<close> does.\<close>

record MerkleTree =
  nodes :: "(nat \<times> (nat \<times> string) list) list"
  leafCount :: nat

definition newMerkleTree :: MerkleTree where
  "newMerkleTree = \<lparr>nodes = [(0, [])], leafCount = 0\<rparr>"

text \<open>\<^verbatim>\<open>getLevel\<close> returns the level's map, an empty one for a level not yet present.
  \<open>getNode\<close> is \<^verbatim>\<open>this.getLevel(level).get(index)\<close> and \<open>setNode\<close> is
  \<^verbatim>\<open>this.getLevel(level).set(index, hash)\<close>.\<close>

definition getLevel :: "MerkleTree \<Rightarrow> nat \<Rightarrow> (nat \<times> string) list" where
  "getLevel t level = (case map_of (nodes t) level of Some levelMap \<Rightarrow> levelMap | None \<Rightarrow> [])"

definition getNode :: "MerkleTree \<Rightarrow> nat \<Rightarrow> nat \<Rightarrow> string option" where
  "getNode t level index = map_of (getLevel t level) index"

definition setNode :: "nat \<Rightarrow> nat \<Rightarrow> string \<Rightarrow> MerkleTree \<Rightarrow> MerkleTree" where
  "setNode level index h t =
     t\<lparr>nodes := AList.update level (AList.update index h (getLevel t level)) (nodes t)\<rparr>"

text \<open>JavaScript truthiness of a \<^verbatim>\<open>string | undefined\<close>: \<^verbatim>\<open>undefined\<close> and the empty string
  are falsy.\<close>

definition truthy :: "string option \<Rightarrow> string option" where
  "truthy v = (case v of None \<Rightarrow> None | Some s \<Rightarrow> if s = [] then None else Some s)"

text \<open>\<^verbatim>\<open>Math.ceil(Math.log2(n))\<close> on exact numbers: the least \<open>h\<close> with \<open>n \<le> 2 ^ h\<close>.\<close>

function ceilLog2 :: "nat \<Rightarrow> nat" where
  "ceilLog2 n = (if n \<le> 1 then 0 else Suc (ceilLog2 ((n + 1) div 2)))"
  by pat_completeness auto
termination
  by (relation "measure id") auto

declare ceilLog2.simps [simp del]

definition heightOf :: "nat \<Rightarrow> nat" where
  "heightOf n = (if n \<le> 1 then 0 else ceilLog2 n)"

definition getHeight :: "MerkleTree \<Rightarrow> nat" where
  "getHeight t = heightOf (leafCount t)"

function rebuildPath_loop ::
  "sha256 \<Rightarrow> nat \<Rightarrow> nat \<Rightarrow> nat \<Rightarrow> MerkleTree \<Rightarrow> (error + unit) \<times> MerkleTree" where
  "rebuildPath_loop sha height level currentIndex t =
     (if level < height then
        let parentIndex = currentIndex div 2;
            leftChildIndex = parentIndex * 2;
            rightChildIndex = leftChildIndex + 1;
            leftHash = getNode t level leftChildIndex;
            rightHash = getNode t level rightChildIndex
        in (case (truthy leftHash, truthy rightHash) of
              (Some l, Some r) \<Rightarrow>
                (case hashInternal sha l r of
                   Inl e \<Rightarrow> (Inl e, t)
                 | Inr parentHash \<Rightarrow>
                     rebuildPath_loop sha height (Suc level) parentIndex
                       (setNode (Suc level) parentIndex parentHash t))
            | (Some l, None) \<Rightarrow>
                (case hashSingle sha l of
                   Inl e \<Rightarrow> (Inl e, t)
                 | Inr parentHash \<Rightarrow>
                     rebuildPath_loop sha height (Suc level) parentIndex
                       (setNode (Suc level) parentIndex parentHash t))
            | (None, _) \<Rightarrow> (Inl (TreeStateError level leftChildIndex), t))
      else (Inr (), t))"
  by pat_completeness auto
termination
  by (relation "measure (\<lambda>(sha, height, level, currentIndex, t). height - level)") auto

declare rebuildPath_loop.simps [simp del]

definition rebuildPath :: "sha256 \<Rightarrow> nat \<Rightarrow> MerkleTree \<Rightarrow> (error + unit) \<times> MerkleTree" where
  "rebuildPath sha leafIndex t = rebuildPath_loop sha (getHeight t) 0 leafIndex t"

definition addLeafHash :: "sha256 \<Rightarrow> string \<Rightarrow> MerkleTree \<Rightarrow> (error + nat) \<times> MerkleTree" where
  "addLeafHash sha h t =
     (let index = leafCount t;
          t1 = setNode 0 index h t;
          t2 = t1\<lparr>leafCount := leafCount t1 + 1\<rparr>
      in (case rebuildPath sha index t2 of
            (Inl e, t3) \<Rightarrow> (Inl e, t3)
          | (Inr u, t3) \<Rightarrow> (Inr index, t3)))"

definition addLeaf ::
  "sha256 \<Rightarrow> leaf_data \<Rightarrow> MerkleTree \<Rightarrow> (error + string \<times> nat) \<times> MerkleTree" where
  "addLeaf sha data t =
     (let h = hashLeaf sha data;
          index = leafCount t;
          t1 = setNode 0 index h t;
          t2 = t1\<lparr>leafCount := leafCount t1 + 1\<rparr>
      in (case rebuildPath sha index t2 of
            (Inl e, t3) \<Rightarrow> (Inl e, t3)
          | (Inr u, t3) \<Rightarrow> (Inr (h, index), t3)))"

definition getRoot :: "MerkleTree \<Rightarrow> string option" where
  "getRoot t = (if leafCount t = 0 then None else getNode t (getHeight t) 0)"

datatype position = PosLeft | PosRight

record ProofSibling =
  sib_hash :: string
  sib_position :: position

record MerkleProof =
  mp_leafHash :: string
  mp_leafIndex :: nat
  mp_siblings :: "ProofSibling list"
  mp_rootHash :: string

text \<open>The loop of \<^verbatim>\<open>generateProof\<close>. Where the sibling is absent the source pushes
  \<^verbatim>\<open>this.getLevel(level).get(currentIndex)!\<close>; should that be \<^verbatim>\<open>undefined\<close> too, the only use
  of the pushed hash, the string concatenation in \<^verbatim>\<open>hashInternal\<close>, reads it as the text
  \<^verbatim>\<open>undefined\<close>.\<close>

function generateProof_loop ::
  "MerkleTree \<Rightarrow> nat \<Rightarrow> nat \<Rightarrow> nat \<Rightarrow> ProofSibling list \<Rightarrow> ProofSibling list" where
  "generateProof_loop t height level currentIndex siblings =
     (if level < height then
        let siblingIndex = currentIndex XOR 1;
            siblingHash = getNode t level siblingIndex
        in (case siblingHash of
              Some sh \<Rightarrow>
                generateProof_loop t height (Suc level) (currentIndex div 2)
                  (siblings @ [\<lparr>sib_hash = sh,
                     sib_position = (if currentIndex mod 2 = 0 then PosRight else PosLeft)\<rparr>])
            | None \<Rightarrow>
                (let selfHash = (case getNode t level currentIndex of
                                   Some s \<Rightarrow> s | None \<Rightarrow> ''undefined'')
                 in generateProof_loop t height (Suc level) (currentIndex div 2)
                      (siblings @ [\<lparr>sib_hash = selfHash, sib_position = PosRight\<rparr>])))
      else siblings)"
  by pat_completeness auto
termination
  by (relation "measure (\<lambda>(t, height, level, currentIndex, siblings). height - level)") auto

declare generateProof_loop.simps [simp del]

definition generateProof :: "MerkleTree \<Rightarrow> int \<Rightarrow> MerkleProof option" where
  "generateProof t leafIndex =
     (if leafIndex < 0 \<or> leafIndex \<ge> int (leafCount t) then None
      else case truthy (getRoot t) of
             None \<Rightarrow> None
           | Some rootHash \<Rightarrow>
               (case truthy (getNode t 0 (nat leafIndex)) of
                  None \<Rightarrow> None
                | Some lh \<Rightarrow>
                    Some \<lparr>mp_leafHash = lh, mp_leafIndex = nat leafIndex,
                          mp_siblings = generateProof_loop t (getHeight t) 0 (nat leafIndex) [],
                          mp_rootHash = rootHash\<rparr>))"

fun verifyProof_loop :: "sha256 \<Rightarrow> string \<Rightarrow> ProofSibling list \<Rightarrow> error + string" where
  "verifyProof_loop sha currentHash [] = Inr currentHash"
| "verifyProof_loop sha currentHash (sibling # rest) =
     (case (if sib_position sibling = PosLeft
            then hashInternal sha (sib_hash sibling) currentHash
            else hashInternal sha currentHash (sib_hash sibling)) of
        Inl e \<Rightarrow> Inl e
      | Inr h \<Rightarrow> verifyProof_loop sha h rest)"

definition verifyProof :: "sha256 \<Rightarrow> MerkleProof \<Rightarrow> error + bool" where
  "verifyProof sha proof =
     (case verifyProof_loop sha (mp_leafHash proof) (mp_siblings proof) of
        Inl e \<Rightarrow> Inl e
      | Inr currentHash \<Rightarrow> Inr (currentHash = mp_rootHash proof))"

text \<open>A sequence of appends to one tree, each through \<^verbatim>\<open>addLeaf\<close> or \<^verbatim>\<open>addLeafHash\<close>;
  \<open>appendAll\<close> is the tree after all of them, whatever they returned.\<close>

datatype append = AddLeaf leaf_data | AddLeafHash string

definition append :: "sha256 \<Rightarrow> append \<Rightarrow> MerkleTree \<Rightarrow> MerkleTree" where
  "append sha a t = (case a of AddLeaf d \<Rightarrow> snd (addLeaf sha d t) | AddLeafHash h \<Rightarrow> snd (addLeafHash sha h t))"

definition appendAll :: "sha256 \<Rightarrow> append list \<Rightarrow> MerkleTree \<Rightarrow> MerkleTree" where
  "appendAll sha as t = fold (append sha) as t"

text \<open>A stand-in for SHA-256 on which concrete trees are evaluated: 32 bytes, the first
  byte of the input followed by the sum of the input bytes plus the position.\<close>

definition sumHash :: sha256 where
  "sumHash bs = (case bs of [] \<Rightarrow> 0 | b # rest \<Rightarrow> b) # map (\<lambda>i. sum_list bs + of_nat i) [1..<32]"

section \<open>What the tree stores, stated over the list of its leaves\<close>

text \<open>The definitions of this section are not in the source; they say what the source's
  tree holds after its leaves \<open>ls\<close> were appended, and the proofs below show that it does.
  \<open>hexHash\<close> is a non-empty string that \<^verbatim>\<open>hexToBytes\<close> decodes; \<open>nodeHash sha ls l i\<close> is the
  hash at level \<open>l\<close>, index \<open>i\<close>, with a missing right child replaced by the left one.\<close>

definition isHex :: "string \<Rightarrow> bool" where
  "isHex h = (case hexToBytes h of Inr bs \<Rightarrow> True | Inl e \<Rightarrow> False)"

definition hexHash :: "string \<Rightarrow> bool" where
  "hexHash h = (h \<noteq> [] \<and> isHex h)"

definition shaNonempty :: "sha256 \<Rightarrow> bool" where
  "shaNonempty sha = (\<forall>x. sha x \<noteq> [])"

definition hashPair :: "sha256 \<Rightarrow> string \<Rightarrow> string \<Rightarrow> string" where
  "hashPair sha l r = (case hashInternal sha l r of Inr h \<Rightarrow> h | Inl e \<Rightarrow> [])"

fun nodeHash :: "sha256 \<Rightarrow> string list \<Rightarrow> nat \<Rightarrow> nat \<Rightarrow> string" where
  "nodeHash sha ls 0 i = ls ! i"
| "nodeHash sha ls (Suc l) i =
     (if (2 * i + 1) * 2 ^ l < length ls
      then hashPair sha (nodeHash sha ls l (2 * i)) (nodeHash sha ls l (2 * i + 1))
      else hashPair sha (nodeHash sha ls l (2 * i)) (nodeHash sha ls l (2 * i)))"

definition leafHashOf :: "sha256 \<Rightarrow> append \<Rightarrow> string" where
  "leafHashOf sha a = (case a of AddLeaf d \<Rightarrow> hashLeaf sha d | AddLeafHash h \<Rightarrow> h)"

definition holds :: "sha256 \<Rightarrow> string list \<Rightarrow> MerkleTree \<Rightarrow> bool" where
  "holds sha ls t \<longleftrightarrow>
     leafCount t = length ls \<and>
     (\<forall>l i. getNode t l i =
        (if l \<le> heightOf (length ls) \<and> i * 2 ^ l < length ls
         then Some (nodeHash sha ls l i) else None))"

section \<open>Canonical form of a commitment (\<^verbatim>\<open>canonicalizeCommitment\<close>, \<^verbatim>\<open>sortObjectKeys\<close>)\<close>

text \<open>The values \<^verbatim>\<open>sortObjectKeys\<close> and \<^verbatim>\<open>JSON.stringify\<close> work on. Numbers are the integers
  (a timestamp is \<^verbatim>\<open>Date.now()\<close>); \<open>JUndefined\<close> is the value of an optional field that was
  left out. An object is the list of its own enumerable properties in the order
  \<^verbatim>\<open>Object.keys\<close> and \<^verbatim>\<open>JSON.stringify\<close> enumerate them (ECMAScript
  \<^emph>\<open>OrdinaryOwnPropertyKeys\<close>): the array indices first, ascending, then the other keys in
  the order they were created.\<close>

datatype json =
    JUndefined
  | JNull
  | JBool bool
  | JNum int
  | JStr string
  | JArr "json list"
  | JObj "(string \<times> json) list"

text \<open>An array index is the canonical decimal numeral of an integer below \<open>2^32 - 1\<close>.\<close>

definition isDigit :: "char \<Rightarrow> bool" where
  "isDigit c = (48 \<le> (of_char c :: nat) \<and> (of_char c :: nat) \<le> 57)"

definition decimalValue :: "string \<Rightarrow> nat" where
  "decimalValue s = foldl (\<lambda>n c. 10 * n + (of_char c - 48)) 0 s"

definition isArrayIndex :: "string \<Rightarrow> bool" where
  "isArrayIndex s =
     (s \<noteq> [] \<and> list_all isDigit s \<and> (s = ''0'' \<or> hd s \<noteq> CHR ''0'')
      \<and> decimalValue s < 2 ^ 32 - 1)"

text \<open>\<open>setProp key v props\<close> is the assignment \<^verbatim>\<open>sorted[key] = v\<close> on an object created by
  \<^verbatim>\<open>{}\<close>: an existing property keeps its place; a new array index goes among the array
  indices, in numeric order; any other new key goes last. Assigning to \<^verbatim>\<open>__proto__\<close> runs the
  setter inherited from \<^verbatim>\<open>Object.prototype\<close> and creates no property.
  \<open>getProp props key\<close> is the read \<^verbatim>\<open>obj[key]\<close> of an own property.\<close>

fun insertIndexProp :: "string \<Rightarrow> json \<Rightarrow> (string \<times> json) list \<Rightarrow> (string \<times> json) list" where
  "insertIndexProp key v [] = [(key, v)]"
| "insertIndexProp key v ((k, w) # props) =
     (if isArrayIndex k \<and> decimalValue k < decimalValue key
      then (k, w) # insertIndexProp key v props
      else (key, v) # (k, w) # props)"

definition setProp :: "string \<Rightarrow> json \<Rightarrow> (string \<times> json) list \<Rightarrow> (string \<times> json) list" where
  "setProp key v props =
     (if key = ''__proto__'' then props
      else if key \<in> fst ` set props then AList.update key v props
      else if isArrayIndex key then insertIndexProp key v props
      else props @ [(key, v)])"

definition getProp :: "(string \<times> json) list \<Rightarrow> string \<Rightarrow> json" where
  "getProp props key = (case map_of props key of Some v \<Rightarrow> v | None \<Rightarrow> JUndefined)"

lemma size_getProp: "size (getProp props key) \<le> size_list (size_prod (\<lambda>_. 0) size) props"
  by (induction props) (auto simp: getProp_def)

text \<open>\<^verbatim>\<open>Object.keys(obj).sort()\<close> sorts the keys as strings, by code units; the loop then
  assigns them to a fresh object in that order.\<close>

function sortObjectKeys :: "json \<Rightarrow> json" where
  "sortObjectKeys JUndefined = JUndefined"
| "sortObjectKeys JNull = JNull"
| "sortObjectKeys (JBool b) = JBool b"
| "sortObjectKeys (JNum n) = JNum n"
| "sortObjectKeys (JStr s) = JStr s"
| "sortObjectKeys (JArr xs) = JArr (map sortObjectKeys xs)"
| "sortObjectKeys (JObj props) =
     JObj (foldl (\<lambda>sorted key. setProp key (sortObjectKeys (getProp props key)) sorted)
             [] (sort (map fst props)))"
  by pat_completeness auto
termination
proof (relation "measure size")
  show "wf (measure size)" by simp
next
  fix xs :: "json list" and x
  assume "x \<in> set xs"
  then have "size x \<le> size_list size xs" by (simp add: size_list_estimation')
  then show "(x, JArr xs) \<in> measure size" by simp
next
  fix props :: "(string \<times> json) list" and a :: "(string \<times> json) list" and x
  show "(getProp props x, JObj props) \<in> measure size"
    using size_getProp [of props x] by simp
qed

declare sortObjectKeys.simps(7) [simp del]

text \<open>\<^verbatim>\<open>JSON.stringify\<close>: a property whose value is \<^verbatim>\<open>undefined\<close> is left out, an array
  element that is \<^verbatim>\<open>undefined\<close> is written \<^verbatim>\<open>null\<close>; strings are quoted with the JSON escapes.\<close>

function digitsOf :: "nat \<Rightarrow> string" where
  "digitsOf n =
     (if n < 10 then [''0123456789'' ! n] else digitsOf (n div 10) @ [''0123456789'' ! (n mod 10)])"
  by pat_completeness auto
termination
  by (relation "measure id") auto

declare digitsOf.simps [simp del]

definition numberToString :: "int \<Rightarrow> string" where
  "numberToString n = (if n < 0 then CHR ''-'' # digitsOf (nat (- n)) else digitsOf (nat n))"

definition quoteChar :: "char \<Rightarrow> string" where
  "quoteChar c =
     (let n = (of_char c :: nat)
      in if n = 8 then [CHR 0x5C, CHR ''b'']
         else if n = 9 then [CHR 0x5C, CHR ''t'']
         else if n = 10 then [CHR 0x5C, CHR ''n'']
         else if n = 12 then [CHR 0x5C, CHR ''f'']
         else if n = 13 then [CHR 0x5C, CHR ''r'']
         else if n = 34 then [CHR 0x5C, CHR 0x22]
         else if n = 92 then [CHR 0x5C, CHR 0x5C]
         else if n < 32 then [CHR 0x5C, CHR ''u'', CHR ''0'', CHR ''0'', hexDigit (n div 16), hexDigit (n mod 16)]
         else [c])"

definition quoteJSON :: "string \<Rightarrow> string" where
  "quoteJSON s = [CHR 0x22] @ concat (map quoteChar s) @ [CHR 0x22]"

fun joinComma :: "string list \<Rightarrow> string" where
  "joinComma [] = []"
| "joinComma [x] = x"
| "joinComma (x # y # ys) = x @ '','' @ joinComma (y # ys)"

fun stringify :: "json \<Rightarrow> string option"
  and stringifyElements :: "json list \<Rightarrow> string list"
  and stringifyProperties :: "(string \<times> json) list \<Rightarrow> string list" where
  "stringify JUndefined = None"
| "stringify JNull = Some ''null''"
| "stringify (JBool b) = Some (if b then ''true'' else ''false'')"
| "stringify (JNum n) = Some (numberToString n)"
| "stringify (JStr s) = Some (quoteJSON s)"
| "stringify (JArr xs) = Some (''['' @ joinComma (stringifyElements xs) @ '']'')"
| "stringify (JObj props) = Some (''{'' @ joinComma (stringifyProperties props) @ ''}'')"
| "stringifyElements [] = []"
| "stringifyElements (x # xs) =
     (case stringify x of None \<Rightarrow> ''null'' | Some s \<Rightarrow> s) # stringifyElements xs"
| "stringifyProperties [] = []"
| "stringifyProperties ((k, v) # props) =
     (case stringify v of
        None \<Rightarrow> stringifyProperties props
      | Some s \<Rightarrow> (quoteJSON k @ '':'' @ s) # stringifyProperties props)"

text \<open>A commitment (\<^verbatim>\<open>src/types.ts\<close>). \<open>canonical\<close> is the object literal that
  \<^verbatim>\<open>canonicalizeCommitment\<close> builds and \<^verbatim>\<open>JSON.stringify\<close> then renders.\<close>

record Commitment =
  cm_id :: string
  cm_type :: string
  cm_payload :: json
  cm_timestamp :: int
  cm_signature :: string
  cm_leafHash :: "string option"
  cm_treeIndex :: "int option"

definition canonical :: "Commitment \<Rightarrow> (string \<times> json) list" where
  "canonical commitment =
     [(''id'', JStr (cm_id commitment)),
      (''payload'', sortObjectKeys (cm_payload commitment)),
      (''signature'', JStr (cm_signature commitment)),
      (''timestamp'', JNum (cm_timestamp commitment)),
      (''type'', JStr (cm_type commitment))]"

definition canonicalizeCommitment :: "Commitment \<Rightarrow> string" where
  "canonicalizeCommitment commitment =
     ''{'' @ joinComma (stringifyProperties (canonical commitment)) @ ''}''"

text \<open>Two values are equal up to the order of object keys, at every depth: objects have
  the same keys (no key twice) and values that are equal up to key order under each key.\<close>

function (sequential) keyPermEq :: "json \<Rightarrow> json \<Rightarrow> bool" where
  "keyPermEq (JObj ps) (JObj qs) =
     (distinct (map fst ps) \<and> distinct (map fst qs) \<and> set (map fst ps) = set (map fst qs)
      \<and> list_all (\<lambda>k. keyPermEq (getProp ps k) (getProp qs k)) (map fst ps))"
| "keyPermEq (JArr xs) (JArr ys) = list_all2 keyPermEq xs ys"
| "keyPermEq a b = (a = b)"
  by pat_completeness auto
termination
proof (relation "measure (\<lambda>(a, b). size a)")
  show "wf (measure (\<lambda>(a, b). size a))" by simp
next
  fix ps qs :: "(string \<times> json) list" and x
  show "((getProp ps x, getProp qs x), JObj ps, JObj qs) \<in> measure (\<lambda>(a, b). size a)"
    using size_getProp [of ps x] by simp
next
  fix xs ys :: "json list" and z yb
  assume "z \<in> set xs"
  then have "size z \<le> size_list size xs" by (simp add: size_list_estimation')
  then show "((z, yb), JArr xs, JArr ys) \<in> measure (\<lambda>(a, b). size a)" by simp
qed

declare keyPermEq.simps(1) [simp del]

section \<open>The SQLite storage layer (\<^verbatim>\<open>src/store/database.ts\<close>)\<close>

text \<open>The tables of the schema. A \<open>payload\<close> column holds the text \<^verbatim>\<open>JSON.stringify\<close> gives
  and \<^verbatim>\<open>rowToCommitment\<close> parses it back; the model keeps the parsed value, which is the
  payload without its \<^verbatim>\<open>undefined\<close> properties (\<open>jsonRoundTrip\<close>). The three rows of
  \<open>tree_state\<close> are kept as the record \<^verbatim>\<open>getTreeState\<close> reads from them; in an empty table it
  reads no root, a leaf count of 0 and a last anchor index of -1.\<close>

fun jsonRoundTrip :: "json \<Rightarrow> json"
  and roundTripElements :: "json list \<Rightarrow> json list"
  and roundTripProperties :: "(string \<times> json) list \<Rightarrow> (string \<times> json) list" where
  "jsonRoundTrip (JArr xs) = JArr (roundTripElements xs)"
| "jsonRoundTrip (JObj props) = JObj (roundTripProperties props)"
| "jsonRoundTrip v = v"
| "roundTripElements [] = []"
| "roundTripElements (x # xs) =
     (if x = JUndefined then JNull else jsonRoundTrip x) # roundTripElements xs"
| "roundTripProperties [] = []"
| "roundTripProperties ((k, v) # props) =
     (if v = JUndefined then roundTripProperties props
      else (k, jsonRoundTrip v) # roundTripProperties props)"

record CommitmentRow =
  row_id :: string
  row_type :: string
  row_payload :: json
  row_signature :: string
  row_timestamp :: int
  row_leaf_hash :: string
  row_tree_index :: int

record Anchor =
  an_txid :: string
  an_blockHeight :: "int option"
  an_timestamp :: int
  an_rootHash :: string
  an_commitmentCount :: nat
  an_anchorIndex :: int
  an_previousAnchor :: "string option"

record TreeState =
  ts_rootHash :: "string option"
  ts_leafCount :: nat
  ts_lastAnchorIndex :: int

record TreeNode =
  tn_level :: nat
  tn_index :: nat
  tn_hash :: string

text \<open>\<open>writesLeft\<close> is not a table: it is the number of write statements that will still
  succeed before the disk fails or the process is killed, \<open>None\<close> when nothing fails. It is
  what an error or crash in the middle of an operation is.\<close>

record AnchorDatabase =
  commitments :: "CommitmentRow list"
  tree_nodes :: "((nat \<times> nat) \<times> string) list"
  tree_state :: TreeState
  anchors :: "Anchor list"
  writesLeft :: "nat option"

definition emptyDatabase :: AnchorDatabase where
  "emptyDatabase =
     \<lparr>commitments = [], tree_nodes = [],
      tree_state = \<lparr>ts_rootHash = None, ts_leafCount = 0, ts_lastAnchorIndex = -1\<rparr>,
      anchors = [], writesLeft = None\<rparr>"

text \<open>A statement either changes the database and returns, or throws and leaves the
  database as it was. \<open>runWrite\<close> is one write statement (\<^verbatim>\<open>stmt.run\<close>): it fails when no write
  is left. \<open>andThen\<close> is the sequence of two statements. \<open>transaction\<close> is
  \<^verbatim>\<open>db.transaction(fn)()\<close> of better-sqlite3: when \<open>fn\<close> throws, the database is rolled back to
  what it was before \<open>fn\<close> and the exception is thrown again.\<close>

type_synonym statement = "AnchorDatabase \<Rightarrow> (error + unit) \<times> AnchorDatabase"

definition runWrite :: "(AnchorDatabase \<Rightarrow> error + AnchorDatabase) \<Rightarrow> statement" where
  "runWrite change d =
     (case writesLeft d of
        Some 0 \<Rightarrow> (Inl IOError, d)
      | Some (Suc k) \<Rightarrow>
          (case change d of
             Inl e \<Rightarrow> (Inl e, d)
           | Inr d' \<Rightarrow> (Inr (), d'\<lparr>writesLeft := Some k\<rparr>))
      | None \<Rightarrow>
          (case change d of
             Inl e \<Rightarrow> (Inl e, d)
           | Inr d' \<Rightarrow> (Inr (), d')))"

definition andThen :: "statement \<Rightarrow> statement \<Rightarrow> statement" where
  "andThen first second d =
     (case first d of
        (Inl e, d') \<Rightarrow> (Inl e, d')
      | (Inr u, d') \<Rightarrow> second d')"

definition transaction :: "statement \<Rightarrow> statement" where
  "transaction fn d =
     (case fn d of
        (Inl e, d') \<Rightarrow> (Inl e, d)
      | (Inr u, d') \<Rightarrow> (Inr u, d'))"

definition insertCommitment :: "Commitment \<Rightarrow> statement" where
  "insertCommitment commitment =
     runWrite (\<lambda>d.
       if cm_payload commitment = JUndefined
          \<or> cm_id commitment \<in> row_id ` set (commitments d)
       then Inl ConstraintError
       else Inr (d\<lparr>commitments := commitments d @
              [\<lparr>row_id = cm_id commitment, row_type = cm_type commitment,
                row_payload = jsonRoundTrip (cm_payload commitment),
                row_signature = cm_signature commitment,
                row_timestamp = cm_timestamp commitment,
                row_leaf_hash = (case cm_leafHash commitment of Some h \<Rightarrow> h | None \<Rightarrow> ''''),
                row_tree_index = (case cm_treeIndex commitment of Some i \<Rightarrow> i | None \<Rightarrow> -1)\<rparr>]\<rparr>))"

definition rowToCommitment :: "CommitmentRow \<Rightarrow> Commitment" where
  "rowToCommitment row =
     \<lparr>cm_id = row_id row, cm_type = row_type row, cm_payload = row_payload row,
      cm_timestamp = row_timestamp row, cm_signature = row_signature row,
      cm_leafHash = (if row_leaf_hash row = [] then None else Some (row_leaf_hash row)),
      cm_treeIndex = (if row_tree_index row \<ge> 0 then Some (row_tree_index row) else None)\<rparr>"

definition getCommitment :: "AnchorDatabase \<Rightarrow> string \<Rightarrow> Commitment option" where
  "getCommitment d ident =
     map_option rowToCommitment (find (\<lambda>row. row_id row = ident) (commitments d))"

definition getAllCommitments :: "AnchorDatabase \<Rightarrow> Commitment list" where
  "getAllCommitments d = map rowToCommitment (sort_key row_tree_index (commitments d))"

definition getCommitmentCount :: "AnchorDatabase \<Rightarrow> nat" where
  "getCommitmentCount d = length (commitments d)"

definition upsertNode :: "TreeNode \<Rightarrow> statement" where
  "upsertNode node =
     runWrite (\<lambda>d. Inr (d\<lparr>tree_nodes :=
       AList.update (tn_level node, tn_index node) (tn_hash node) (tree_nodes d)\<rparr>))"

fun upsertNodes :: "TreeNode list \<Rightarrow> statement" where
  "upsertNodes [] d = (Inr (), d)"
| "upsertNodes (node # rest) d = andThen (upsertNode node) (upsertNodes rest) d"

definition saveTreeNodes :: "TreeNode list \<Rightarrow> statement" where
  "saveTreeNodes ns = transaction (upsertNodes ns)"

definition getTreeState :: "AnchorDatabase \<Rightarrow> TreeState" where
  "getTreeState d = tree_state d"

definition saveTreeState :: "TreeState \<Rightarrow> statement" where
  "saveTreeState state =
     transaction
       (andThen
          (runWrite (\<lambda>d. Inr (d\<lparr>tree_state := (tree_state d)\<lparr>ts_rootHash := truthy (ts_rootHash state)\<rparr>\<rparr>)))
          (andThen
             (runWrite (\<lambda>d. Inr (d\<lparr>tree_state := (tree_state d)\<lparr>ts_leafCount := ts_leafCount state\<rparr>\<rparr>)))
             (runWrite (\<lambda>d. Inr (d\<lparr>tree_state :=
                (tree_state d)\<lparr>ts_lastAnchorIndex := ts_lastAnchorIndex state\<rparr>\<rparr>)))))"

definition insertAnchor :: "Anchor \<Rightarrow> statement" where
  "insertAnchor anchor =
     runWrite (\<lambda>d.
       if an_anchorIndex anchor \<in> an_anchorIndex ` set (anchors d)
          \<or> an_txid anchor \<in> an_txid ` set (anchors d)
       then Inl ConstraintError
       else Inr (d\<lparr>anchors := anchors d @ [anchor]\<rparr>))"

definition getAllAnchors :: "AnchorDatabase \<Rightarrow> Anchor list" where
  "getAllAnchors d = sort_key an_anchorIndex (anchors d)"

definition getLatestAnchor :: "AnchorDatabase \<Rightarrow> Anchor option" where
  "getLatestAnchor d =
     (case rev (sort_key an_anchorIndex (anchors d)) of [] \<Rightarrow> None | a # rest \<Rightarrow> Some a)"

section \<open>The anchor store (\<^verbatim>\<open>src/store/anchor-store.ts\<close>)\<close>

text \<open>Signing and signature verification (secp256k1 over a double SHA-256) are parameters,
  as SHA-256 is. The random part of a commitment id and the clock are arguments of the
  operations that read them.\<close>

type_synonym signer = "string \<Rightarrow> string \<Rightarrow> string"
type_synonym verifier = "string \<Rightarrow> string \<Rightarrow> string \<Rightarrow> bool"

record KeyPair =
  privateKey :: string
  publicKey :: string

record AnchorStore =
  st_db :: AnchorDatabase
  st_tree :: MerkleTree
  st_keyPair :: KeyPair

record CommitmentInput =
  in_type :: string
  in_payload :: json

record AnchorRef =
  ref_txid :: string
  ref_blockHeight :: "int option"
  ref_timestamp :: int

record CommitmentProof =
  cp_commitment :: Commitment
  cp_merkleProof :: MerkleProof
  cp_anchor :: AnchorRef

definition getState :: "MerkleTree \<Rightarrow> TreeState" where
  "getState t = \<lparr>ts_rootHash = getRoot t, ts_leafCount = leafCount t, ts_lastAnchorIndex = -1\<rparr>"

definition getAllNodes :: "MerkleTree \<Rightarrow> TreeNode list" where
  "getAllNodes t =
     concat (map (\<lambda>(level, levelMap).
               map (\<lambda>(index, h). \<lparr>tn_level = level, tn_index = index, tn_hash = h\<rparr>) levelMap)
             (nodes t))"

text \<open>The loop of \<^verbatim>\<open>AnchorStore.open\<close> over \<^verbatim>\<open>db.getAllCommitments()\<close>; an exception of
  \<^verbatim>\<open>addLeafHash\<close> ends \<^verbatim>\<open>open\<close>, and no store is returned.\<close>

fun rebuildTree :: "sha256 \<Rightarrow> Commitment list \<Rightarrow> MerkleTree \<Rightarrow> error + MerkleTree" where
  "rebuildTree sha [] t = Inr t"
| "rebuildTree sha (commitment # rest) t =
     (case truthy (cm_leafHash commitment) of
        None \<Rightarrow> rebuildTree sha rest t
      | Some h \<Rightarrow>
          (case addLeafHash sha h t of
             (Inl e, t') \<Rightarrow> Inl e
           | (Inr index, t') \<Rightarrow> rebuildTree sha rest t'))"

definition openStore :: "sha256 \<Rightarrow> KeyPair \<Rightarrow> AnchorDatabase \<Rightarrow> error + AnchorStore" where
  "openStore sha keyPair d =
     (case rebuildTree sha (getAllCommitments d) newMerkleTree of
        Inl e \<Rightarrow> Inl e
      | Inr t \<Rightarrow> Inr \<lparr>st_db = d, st_tree = t, st_keyPair = keyPair\<rparr>)"

definition commit ::
  "sha256 \<Rightarrow> signer \<Rightarrow> string \<Rightarrow> int \<Rightarrow> CommitmentInput \<Rightarrow> AnchorStore
    \<Rightarrow> (error + Commitment) \<times> AnchorStore" where
  "commit sha sign randomHex now input s =
     (let ident = ''commit_'' @ randomHex;
          timestamp = now;
          unsigned = \<lparr>cm_id = ident, cm_type = in_type input, cm_payload = in_payload input,
                      cm_timestamp = timestamp, cm_signature = '''',
                      cm_leafHash = None, cm_treeIndex = None\<rparr>;
          canonical = canonicalizeCommitment (unsigned\<lparr>cm_signature := ''''\<rparr>);
          signature = sign canonical (privateKey (st_keyPair s));
          commitment = \<lparr>cm_id = ident, cm_type = in_type input, cm_payload = in_payload input,
                        cm_timestamp = timestamp, cm_signature = signature,
                        cm_leafHash = None, cm_treeIndex = None\<rparr>;
          canonicalFull = canonicalizeCommitment commitment
      in (case addLeaf sha (Text canonicalFull) (st_tree s) of
            (Inl e, t') \<Rightarrow> (Inl e, s\<lparr>st_tree := t'\<rparr>)
          | (Inr (h, index), t') \<Rightarrow>
              (let commitment' = commitment\<lparr>cm_leafHash := Some h, cm_treeIndex := Some (int index)\<rparr>
               in (case transaction
                         (andThen (insertCommitment commitment')
                            (andThen (saveTreeState (getState t'))
                               (saveTreeNodes (getAllNodes t')))) (st_db s) of
                     (Inl e, d') \<Rightarrow> (Inl e, s\<lparr>st_tree := t', st_db := d'\<rparr>)
                   | (Inr u, d') \<Rightarrow> (Inr commitment', s\<lparr>st_tree := t', st_db := d'\<rparr>)))))"

definition prove :: "AnchorStore \<Rightarrow> string \<Rightarrow> CommitmentProof option" where
  "prove s commitmentId =
     (case getCommitment (st_db s) commitmentId of
        None \<Rightarrow> None
      | Some commitment \<Rightarrow>
          (case cm_treeIndex commitment of
             None \<Rightarrow> None
           | Some treeIndex \<Rightarrow>
               (case generateProof (st_tree s) treeIndex of
                  None \<Rightarrow> None
                | Some merkleProof \<Rightarrow>
                    (case find (\<lambda>a. int (an_commitmentCount a) > treeIndex)
                            (getAllAnchors (st_db s)) of
                       None \<Rightarrow> None
                     | Some anchor \<Rightarrow>
                         Some \<lparr>cp_commitment = commitment, cp_merkleProof = merkleProof,
                               cp_anchor = \<lparr>ref_txid = an_txid anchor,
                                            ref_blockHeight = an_blockHeight anchor,
                                            ref_timestamp = an_timestamp anchor\<rparr>\<rparr>))))"

definition verifyInclusion :: "sha256 \<Rightarrow> CommitmentProof \<Rightarrow> error + bool" where
  "verifyInclusion sha proof =
     (case verifyProof sha (cp_merkleProof proof) of
        Inl e \<Rightarrow> Inl e
      | Inr ok \<Rightarrow>
          if \<not> ok then Inr False
          else (let canonical = canonicalizeCommitment (cp_commitment proof);
                    expectedHash = hashLeaf sha (Text canonical)
                in if expectedHash \<noteq> mp_leafHash (cp_merkleProof proof) then Inr False
                   else Inr True))"

definition verify :: "sha256 \<Rightarrow> verifier \<Rightarrow> CommitmentProof \<Rightarrow> string \<Rightarrow> error + bool" where
  "verify sha verifySignature proof publicKeyHex =
     (case verifyInclusion sha proof of
        Inl e \<Rightarrow> Inl e
      | Inr ok \<Rightarrow>
          if \<not> ok then Inr False
          else (let unsignedCanonical =
                      canonicalizeCommitment ((cp_commitment proof)\<lparr>cm_signature := ''''\<rparr>)
                in Inr (verifySignature unsignedCanonical
                          (cm_signature (cp_commitment proof)) publicKeyHex)))"

text \<open>\<^verbatim>\<open>recordAnchor(txid, timestamp?)\<close>. On an empty tree \<^verbatim>\<open>state.rootHash!\<close> is \<^verbatim>\<open>null\<close> and the
  insert fails on the \<^verbatim>\<open>NOT NULL\<close> column. The insert and the update of the tree state are two
  statements, one after the other.\<close>

definition recordAnchor ::
  "string \<Rightarrow> int option \<Rightarrow> int \<Rightarrow> AnchorStore \<Rightarrow> (error + Anchor) \<times> AnchorStore" where
  "recordAnchor txid timestamp now s =
     (let state = getState (st_tree s);
          latestAnchor = getLatestAnchor (st_db s)
      in (case ts_rootHash state of
            None \<Rightarrow> (Inl ConstraintError, s)
          | Some rootHash \<Rightarrow>
              (let anchor =
                     \<lparr>an_txid = txid, an_blockHeight = None,
                      an_timestamp = (case timestamp of Some ts \<Rightarrow> ts | None \<Rightarrow> now),
                      an_rootHash = rootHash,
                      an_commitmentCount = ts_leafCount state,
                      an_anchorIndex =
                        (case latestAnchor of Some a \<Rightarrow> an_anchorIndex a | None \<Rightarrow> -1) + 1,
                      an_previousAnchor = map_option an_txid latestAnchor\<rparr>
               in (case insertAnchor anchor (st_db s) of
                     (Inl e, d1) \<Rightarrow> (Inl e, s\<lparr>st_db := d1\<rparr>)
                   | (Inr u, d1) \<Rightarrow>
                       (let treeState = getTreeState d1;
                            treeState' = treeState\<lparr>ts_lastAnchorIndex := an_anchorIndex anchor\<rparr>
                        in (case saveTreeState treeState' d1 of
                              (Inl e, d2) \<Rightarrow> (Inl e, s\<lparr>st_db := d2\<rparr>)
                            | (Inr u, d2) \<Rightarrow> (Inr anchor, s\<lparr>st_db := d2\<rparr>)))))))"

text \<open>\<^verbatim>\<open>new DataView(countBytes.buffer).setUint32(0, commitmentCount, false)\<close>: the count
  modulo \<open>2^32\<close>, most significant byte first.\<close>

definition uint32BE :: "nat \<Rightarrow> byte list" where
  "uint32BE n =
     (let w = (of_nat n :: 32 word)
      in [ucast (drop_bit 24 w), ucast (drop_bit 16 w), ucast (drop_bit 8 w), ucast w])"

definition buildAnchorPayload :: "AnchorStore \<Rightarrow> error + byte list" where
  "buildAnchorPayload s =
     (case truthy (getRoot (st_tree s)) of
        None \<Rightarrow> Inl EmptyTreeError
      | Some rootHash \<Rightarrow>
          (let latestAnchor = getLatestAnchor (st_db s);
               commitmentCount = getCommitmentCount (st_db s);
               protocol = utf8Encode ''BSV-ANCHOR'';
               version = [1]
           in (case hexToBytes rootHash of
                 Inl e \<Rightarrow> Inl e
               | Inr rootBytes \<Rightarrow>
                   (let countBytes = uint32BE commitmentCount
                    in (case (case latestAnchor of
                                Some a \<Rightarrow> hexToBytes (an_txid a)
                              | None \<Rightarrow> Inr (replicate 32 0)) of
                          Inl e \<Rightarrow> Inl e
                        | Inr prevBytes \<Rightarrow>
                            Inr (protocol @ version @ rootBytes @ countBytes @ prevBytes))))))"

text \<open>A key pair and a database to evaluate the store on. The database holds one commitment
  and a \<open>tree_state\<close> whose root is not the hash of that commitment.\<close>

definition demoKeyPair :: KeyPair where
  "demoKeyPair = \<lparr>privateKey = ''01'', publicKey = ''02''\<rparr>"

definition demoLeaf :: string where
  "demoLeaf = ''abababababababababababababababababababababababababababababababab''"

definition demoRoot :: string where
  "demoRoot = ''cdcdcdcdcdcdcdcdcdcdcdcdcdcdcdcdcdcdcdcdcdcdcdcdcdcdcdcdcdcdcdcdcd''"

definition corruptDatabase :: AnchorDatabase where
  "corruptDatabase =
     \<lparr>commitments =
        [\<lparr>row_id = ''commit_000000000000000000000001'', row_type = ''custom'',
          row_payload = JObj [(''subject'', JStr ''s''), (''content'', JStr ''x'')],
          row_signature = ''00'', row_timestamp = 1700000000000,
          row_leaf_hash = demoLeaf, row_tree_index = 0\<rparr>],
      tree_nodes = [((0, 0), demoLeaf)],
      tree_state = \<lparr>ts_rootHash = Some demoRoot, ts_leafCount = 1, ts_lastAnchorIndex = -1\<rparr>,
      anchors = [], writesLeft = None\<rparr>"

text \<open>The root of the tree of the store that \<^verbatim>\<open>open\<close> returns.\<close>

definition openedRoot :: "sha256 \<Rightarrow> KeyPair \<Rightarrow> AnchorDatabase \<Rightarrow> error + string option" where
  "openedRoot sha keyPair d =
     (case openStore sha keyPair d of Inl e \<Rightarrow> Inl e | Inr s \<Rightarrow> Inr (getRoot (st_tree s)))"

text \<open>The leaf hashes \<^verbatim>\<open>open\<close> replays: those of the rows in \<open>tree_index\<close> order, without the
  empty ones.\<close>

definition persistedLeaves :: "AnchorDatabase \<Rightarrow> string list" where
  "persistedLeaves d =
     filter (\<lambda>h. h \<noteq> []) (map row_leaf_hash (sort_key row_tree_index (commitments d)))"

section \<open>Stores that the operations reach\<close>

text \<open>SHA-256 returns 32 bytes; a \<open>hash64\<close> is the hex text of 32 bytes.\<close>

definition sha32 :: "sha256 \<Rightarrow> bool" where
  "sha32 sha = (\<forall>x. length (sha x) = 32)"

definition hash64 :: "string \<Rightarrow> bool" where
  "hash64 h = (length h = 64 \<and> isHex h)"

text \<open>The stores reached from a new, empty data directory by commits and recorded anchors
  that returned normally, and by closing and opening again.\<close>

inductive reachable :: "sha256 \<Rightarrow> signer \<Rightarrow> AnchorStore \<Rightarrow> bool" for sha :: sha256 and sign :: signer where
  opened: "openStore sha keyPair emptyDatabase = Inr s \<Longrightarrow> reachable sha sign s"
| committed: "reachable sha sign s \<Longrightarrow> commit sha sign randomHex now input s = (Inr c, s')
    \<Longrightarrow> reachable sha sign s'"
| anchored: "reachable sha sign s \<Longrightarrow> recordAnchor txid timestamp now s = (Inr a, s')
    \<Longrightarrow> reachable sha sign s'"
| reopened: "reachable sha sign s \<Longrightarrow> openStore sha keyPair (st_db s) = Inr s'
    \<Longrightarrow> reachable sha sign s'"

text \<open>What every such store satisfies: the tree holds the node hashes of the persisted leaf
  hashes, which are 64 hex digits each, and the \<open>i\<close>-th row has tree index \<open>i\<close>.\<close>

definition storeInv :: "sha256 \<Rightarrow> AnchorStore \<Rightarrow> bool" where
  "storeInv sha s \<longleftrightarrow>
     holds sha (map row_leaf_hash (commitments (st_db s))) (st_tree s)
     \<and> (\<forall>h\<in>set (map row_leaf_hash (commitments (st_db s))). hash64 h)
     \<and> map row_tree_index (commitments (st_db s)) = map int [0..<length (commitments (st_db s))]
     \<and> writesLeft (st_db s) = None"

text \<open>The commitment \<^verbatim>\<open>commit\<close> builds and signs, before it enters the tree.\<close>

definition signedCommitment ::
  "signer \<Rightarrow> string \<Rightarrow> string \<Rightarrow> int \<Rightarrow> CommitmentInput \<Rightarrow> Commitment" where
  "signedCommitment sign key randomHex now input =
     \<lparr>cm_id = ''commit_'' @ randomHex, cm_type = in_type input, cm_payload = in_payload input,
      cm_timestamp = now,
      cm_signature = sign (canonicalizeCommitment
          (\<lparr>cm_id = ''commit_'' @ randomHex, cm_type = in_type input,
            cm_payload = in_payload input, cm_timestamp = now, cm_signature = '''',
            cm_leafHash = None, cm_treeIndex = None\<rparr>\<lparr>cm_signature := ''''\<rparr>)) key,
      cm_leafHash = None, cm_treeIndex = None\<rparr>"

text \<open>A signer, an input and a transaction id to run the store on, and the stores they
  lead to from an empty data directory: \<open>demoStore1\<close> after one commit, \<open>demoStore2\<close> after a
  second commit, \<open>anchoredStore1\<close> after one commit and a recorded anchor, \<open>anchoredStore2\<close>
  after a further commit.\<close>

definition demoSign :: signer where
  "demoSign message key = bytesToHex (sumHash (utf8Encode (key @ message)))"

definition demoInput :: CommitmentInput where
  "demoInput =
     \<lparr>in_type = ''agreement'',
      in_payload = JObj [(''subject'', JStr ''code-review''),
                         (''content'', JStr ''Review PR #42 for 100 sats''),
                         (''counterparty'', JStr ''peerX'')]\<rparr>"

definition demoTxid :: string where
  "demoTxid = ''e3b0c44298fc1c149afbf4c8996fb92427ae41e4649b934ca495991b7852b855''"

definition demoStore0 :: AnchorStore where
  "demoStore0 = \<lparr>st_db = emptyDatabase, st_tree = newMerkleTree, st_keyPair = demoKeyPair\<rparr>"

definition demoStore1 :: AnchorStore where
  "demoStore1 =
     snd (commit sumHash demoSign ''000000000000000000000001'' 1700000000000 demoInput demoStore0)"

definition demoStore2 :: AnchorStore where
  "demoStore2 =
     snd (commit sumHash demoSign ''000000000000000000000002'' 1700000000500 demoInput demoStore1)"

definition anchoredStore1 :: AnchorStore where
  "anchoredStore1 = snd (recordAnchor demoTxid None 1700000000100 demoStore1)"

definition anchoredStore2 :: AnchorStore where
  "anchoredStore2 =
     snd (commit sumHash demoSign ''000000000000000000000002'' 1700000000500 demoInput anchoredStore1)"

text \<open>The unsigned integer a byte sequence denotes, most significant byte first.\<close>

definition beValue :: "byte list \<Rightarrow> nat" where
  "beValue bs = foldl (\<lambda>acc b. acc * 256 + unat b) 0 bs"


text \<open>The commitment count an anchor payload carries.\<close>

definition payloadCount :: "byte list \<Rightarrow> nat" where
  "payloadCount payload = beValue (take 4 (drop 43 payload))"

text \<open>The commitment the first commit of the example stores signs, and a verifier that
  accepts the signatures \<open>demoSign\<close> makes with the private key of \<open>demoKeyPair\<close>.\<close>

definition demoCommitment :: Commitment where
  "demoCommitment = signedCommitment demoSign (privateKey demoKeyPair)
     ''000000000000000000000001'' 1700000000000 demoInput"

definition demoVerify :: verifier where
  "demoVerify message signature publicKeyHex \<longleftrightarrow>
     publicKeyHex = publicKey demoKeyPair
     \<and> signature = demoSign message (privateKey demoKeyPair)"

section \<open>Appending leaves\<close>

lemma getNode_setNode:
  "getNode (setNode l i h t) l' i' = (if l' = l \<and> i' = i then Some h else getNode t l' i')"
  by (auto simp: getNode_def setNode_def getLevel_def update_conv' split: option.splits)

lemma leafCount_setNode [simp]: "leafCount (setNode l i h t) = leafCount t"
  by (simp add: setNode_def)

lemma getNode_leafCount_update [simp]: "getNode (t\<lparr>leafCount := n\<rparr>) l i = getNode t l i"
  by (simp add: getNode_def getLevel_def)

lemma rebuildPath_loop_leafCount:
  "leafCount (snd (rebuildPath_loop sha H l c t)) = leafCount t"
proof (induction sha H l c t rule: rebuildPath_loop.induct)
  case (1 sha height level currentIndex t)
  show ?case
    apply (subst rebuildPath_loop.simps)
    using 1 by (auto simp: Let_def split: option.splits sum.splits)
qed

lemma rebuildPath_loop_level0:
  "getNode (snd (rebuildPath_loop sha H l c t)) 0 i = getNode t 0 i"
proof (induction sha H l c t rule: rebuildPath_loop.induct)
  case (1 sha height level currentIndex t)
  show ?case
    apply (subst rebuildPath_loop.simps)
    using 1 by (auto simp: Let_def getNode_setNode split: option.splits sum.splits)
qed

lemma addLeafHash_state:
  "snd (addLeafHash sha h t) =
     snd (rebuildPath sha (leafCount t) ((setNode 0 (leafCount t) h t)\<lparr>leafCount := leafCount t + 1\<rparr>))"
  by (simp add: addLeafHash_def Let_def split: prod.splits sum.splits)

lemma addLeaf_state: "snd (addLeaf sha d t) = snd (addLeafHash sha (hashLeaf sha d) t)"
  by (simp add: addLeaf_def addLeafHash_def Let_def split: prod.splits sum.splits)

lemma addLeafHash_leafCount: "leafCount (snd (addLeafHash sha h t)) = leafCount t + 1"
  by (simp add: addLeafHash_state rebuildPath_def rebuildPath_loop_leafCount)

lemma addLeafHash_level0:
  "getNode (snd (addLeafHash sha h t)) 0 i = (if i = leafCount t then Some h else getNode t 0 i)"
  by (simp add: addLeafHash_state rebuildPath_def rebuildPath_loop_level0 getNode_setNode)

lemma append_leafCount: "leafCount (append sha a t) = leafCount t + 1"
  by (cases a) (simp_all add: append_def addLeaf_state addLeafHash_leafCount)

lemma append_level0:
  "i \<noteq> leafCount t \<Longrightarrow> getNode (append sha a t) 0 i = getNode t 0 i"
  by (cases a) (simp_all add: append_def addLeaf_state addLeafHash_level0)

lemma appendAll_leafCount: "leafCount (appendAll sha as t) = leafCount t + length as"
  by (induction as arbitrary: t) (simp_all add: appendAll_def append_leafCount)

lemma appendAll_level0:
  "i < leafCount t \<Longrightarrow> getNode (appendAll sha as t) 0 i = getNode t 0 i"
proof (induction as arbitrary: t)
  case Nil
  then show ?case by (simp add: appendAll_def)
next
  case (Cons a as)
  have "getNode (appendAll sha as (append sha a t)) 0 i = getNode (append sha a t) 0 i"
    using Cons.prems by (intro Cons.IH) (simp add: append_leafCount)
  then show ?case using Cons.prems by (simp add: appendAll_def append_level0)
qed


subsection \<open>Hex strings\<close>

lemma hexVal_hexDigit: "n < 16 \<Longrightarrow> hexVal (hexDigit n) = Some n"
proof -
  have "\<forall>n\<in>set [0..<16]. hexVal (hexDigit n) = Some n"
    by (simp add: upt_rec hexDigit_def hexVal_def)
  then show "n < 16 \<Longrightarrow> hexVal (hexDigit n) = Some n" by simp
qed

lemma hexToBytes_bytesToHex: "hexToBytes (bytesToHex bs) = Inr bs"
proof (induction bs)
  case Nil
  then show ?case by (simp add: bytesToHex_def)
next
  case (Cons b bs)
  have "16 * (unat b div 16) + unat b mod 16 = unat b" by simp
  then have b: "(of_nat (16 * (unat b div 16) + unat b mod 16) :: byte) = b"
    by (simp only: of_nat_unat ucast_id)
  have lt: "unat b div 16 < 16"
    using unsigned_less [of b, where ?'a = nat] by (simp add: less_mult_imp_div_less)
  from Cons show ?case
    by (simp add: bytesToHex_def hexVal_hexDigit lt b del: of_nat_add of_nat_mult)
qed

lemma hexToBytes_append:
  "hexToBytes a = Inr x \<Longrightarrow> hexToBytes b = Inr y \<Longrightarrow> hexToBytes (a @ b) = Inr (x @ y)"
  by (induction a arbitrary: x rule: hexToBytes.induct)
     (auto split: option.splits sum.splits)

lemma bytesToHex_Nil_iff: "bytesToHex bs = [] \<longleftrightarrow> bs = []"
  by (cases bs) (simp_all add: bytesToHex_def)

lemma hexHash_bytesToHex: "bs \<noteq> [] \<Longrightarrow> hexHash (bytesToHex bs)"
  by (simp add: hexHash_def isHex_def hexToBytes_bytesToHex bytesToHex_Nil_iff)

lemma hexHash_hashLeaf: "shaNonempty sha \<Longrightarrow> hexHash (hashLeaf sha d)"
  by (simp add: hashLeaf_def Let_def hexHash_bytesToHex shaNonempty_def)

lemma hashInternal_hexHash:
  assumes "hexHash l" "hexHash r"
  shows "hashInternal sha l r = Inr (hashPair sha l r)"
proof -
  from assms obtain x y where "hexToBytes l = Inr x" "hexToBytes r = Inr y"
    by (auto simp: hexHash_def isHex_def split: sum.splits)
  then have "hexToBytes (l @ r) = Inr (x @ y)" by (rule hexToBytes_append)
  then show ?thesis by (simp add: hashPair_def hashInternal_def)
qed

lemma hexHash_hashPair:
  assumes "shaNonempty sha" "hexHash l" "hexHash r"
  shows "hexHash (hashPair sha l r)"
proof -
  from assms obtain x y where "hexToBytes l = Inr x" "hexToBytes r = Inr y"
    by (auto simp: hexHash_def isHex_def split: sum.splits)
  then have "hexToBytes (l @ r) = Inr (x @ y)" by (rule hexToBytes_append)
  then show ?thesis
    using assms(1) by (simp add: hashPair_def hashInternal_def hexHash_bytesToHex shaNonempty_def)
qed

lemma truthy_hexHash: "hexHash h \<Longrightarrow> truthy (Some h) = Some h"
  by (simp add: truthy_def hexHash_def)

lemma truthy_None [simp]: "truthy None = None"
  by (simp add: truthy_def)

subsection \<open>The hash every stored node holds\<close>

lemma hexHash_nodeHash:
  assumes "shaNonempty sha" "\<forall>h\<in>set ls. hexHash h"
  shows "i * 2 ^ l < length ls \<Longrightarrow> hexHash (nodeHash sha ls l i)"
proof (induction l arbitrary: i)
  case 0
  then show ?case using assms(2) by simp
next
  case (Suc l)
  from Suc.prems have "(2 * i) * 2 ^ l < length ls" by (simp add: mult.assoc mult.left_commute)
  then have L: "hexHash (nodeHash sha ls l (2 * i))" by (rule Suc.IH)
  show ?case
  proof (cases "(2 * i + 1) * 2 ^ l < length ls")
    case True
    then have "hexHash (nodeHash sha ls l (2 * i + 1))" by (rule Suc.IH)
    with True L assms(1) show ?thesis by (simp add: hexHash_hashPair)
  next
    case False
    with L assms(1) show ?thesis by (simp add: hexHash_hashPair)
  qed
qed

lemma nodeHash_append:
  "(i + 1) * 2 ^ l \<le> length ls \<Longrightarrow> nodeHash sha (ls @ [h]) l i = nodeHash sha ls l i"
proof (induction l arbitrary: i)
  case 0
  then show ?case by (simp add: nth_append)
next
  case (Suc l)
  define p :: nat where "p = 2 ^ l"
  have p: "0 < p" by (simp add: p_def)
  from Suc.prems have "(i + 1) * (2 * p) \<le> length ls" by (simp add: p_def)
  then have r: "(2 * i + 1 + 1) * p \<le> length ls" by (simp add: algebra_simps)
  then have "(2 * i + 1) * p + p \<le> length ls" by (simp add: algebra_simps)
  with p have c: "(2 * i + 1) * p < length ls" by linarith
  then have l: "(2 * i + 1) * p \<le> length ls" by simp
  have "nodeHash sha (ls @ [h]) l (2 * i) = nodeHash sha ls l (2 * i)"
    using l unfolding p_def by (intro Suc.IH)
  moreover have "nodeHash sha (ls @ [h]) l (2 * i + 1) = nodeHash sha ls l (2 * i + 1)"
    using r unfolding p_def by (intro Suc.IH)
  moreover have "(2 * i + 1) * 2 ^ l < length (ls @ [h])" using c by (simp add: p_def)
  ultimately show ?case using c by (simp add: p_def)
qed

lemma ceilLog2_ge: "n \<le> 2 ^ ceilLog2 n"
proof (induction n rule: ceilLog2.induct)
  case (1 n)
  show ?case
  proof (cases "n \<le> 1")
    case True
    then show ?thesis by (simp add: ceilLog2.simps)
  next
    case False
    with 1 have "(n + 1) div 2 \<le> 2 ^ ceilLog2 ((n + 1) div 2)" by simp
    then have "n \<le> 2 * 2 ^ ceilLog2 ((n + 1) div 2)" by linarith
    with False show ?thesis by (subst ceilLog2.simps) simp
  qed
qed

lemma ceilLog2_least: "n \<le> 2 ^ h \<Longrightarrow> ceilLog2 n \<le> h"
proof (induction n arbitrary: h rule: ceilLog2.induct)
  case (1 n)
  show ?case
  proof (cases "n \<le> 1")
    case True
    then show ?thesis by (simp add: ceilLog2.simps)
  next
    case False
    with "1.prems" obtain h' where h: "h = Suc h'"
      by (cases h) auto
    with "1.prems" have "(n + 1) div 2 \<le> 2 ^ h'" by simp
    with 1 False have "ceilLog2 ((n + 1) div 2) \<le> h'" by simp
    with False h show ?thesis by (subst ceilLog2.simps) simp
  qed
qed

lemma heightOf_ceilLog2: "heightOf n = ceilLog2 n"
  by (simp add: heightOf_def ceilLog2.simps)

lemma heightOf_ge: "n \<le> 2 ^ heightOf n"
  by (simp add: heightOf_ceilLog2 ceilLog2_ge)

lemma heightOf_least: "n \<le> 2 ^ h \<Longrightarrow> heightOf n \<le> h"
  by (simp add: heightOf_ceilLog2 ceilLog2_least)

lemma heightOf_mono: "m \<le> n \<Longrightarrow> heightOf m \<le> heightOf n"
  by (rule heightOf_least) (rule order_trans [OF _ heightOf_ge])

text \<open>The source computes the height as \<^verbatim>\<open>Math.ceil(Math.log2(n))\<close>.\<close>

lemma ceilLog2_real: "0 < n \<Longrightarrow> int (ceilLog2 n) = \<lceil>log 2 (real n)\<rceil>"
proof (induction n rule: ceilLog2.induct)
  case (1 n)
  show ?case
  proof (cases "n \<le> 1")
    case True
    with "1.prems" have "n = 1" by simp
    then show ?thesis by (simp add: ceilLog2.simps)
  next
    case False
    then have n: "2 \<le> n" by simp
    have eq: "(n - 1) div 2 + 1 = (n + 1) div 2" using n by presburger
    from 1 False have "int (ceilLog2 ((n + 1) div 2)) = \<lceil>log 2 (real ((n + 1) div 2))\<rceil>"
      by simp
    moreover have "\<lceil>log 2 (real n)\<rceil> = \<lceil>log 2 (real ((n + 1) div 2))\<rceil> + 1"
      using ceiling_log2_div2 [OF n] unfolding eq .
    moreover have "ceilLog2 n = Suc (ceilLog2 ((n + 1) div 2))"
      using False by (subst ceilLog2.simps) simp
    ultimately show ?thesis by simp
  qed
qed

lemma path_index_bound: "(n div 2 ^ k) * 2 ^ k \<le> (n::nat)"
  by simp

lemma off_path:
  fixes i n q :: nat
  assumes "0 < q" "i \<noteq> n div q" "i * q \<le> n"
  shows "(i + 1) * q \<le> n"
proof -
  from assms(1,3) have "i \<le> n div q" by (simp add: less_eq_div_iff_mult_less_eq)
  with assms(2) have "i + 1 \<le> n div q" by simp
  then have "(i + 1) * q \<le> (n div q) * q" by (rule mult_le_mono1)
  also have "\<dots> \<le> n" by simp
  finally show ?thesis .
qed

lemma level_le_height:
  assumes "(i + 1) * 2 ^ l \<le> n"
  shows "l \<le> heightOf n"
proof -
  have "(2::nat) ^ l \<le> (i + 1) * 2 ^ l" by simp
  also note assms
  also note heightOf_ge
  finally show ?thesis by simp
qed

lemma rebuildPath_loop_holds:
  assumes sha: "shaNonempty sha" and good: "\<forall>x\<in>set (ls @ [h]). hexHash x"
  shows "k \<le> heightOf (Suc (length ls)) \<Longrightarrow> leafCount t = Suc (length ls) \<Longrightarrow>
    (\<forall>l i. getNode t l i =
       (if l \<le> k then (if i * 2 ^ l < Suc (length ls) then Some (nodeHash sha (ls @ [h]) l i) else None)
        else (if l \<le> heightOf (length ls) \<and> i * 2 ^ l < length ls
              then Some (nodeHash sha ls l i) else None))) \<Longrightarrow>
    fst (rebuildPath_loop sha (heightOf (Suc (length ls))) k (length ls div 2 ^ k) t) = Inr ()
    \<and> holds sha (ls @ [h]) (snd (rebuildPath_loop sha (heightOf (Suc (length ls))) k (length ls div 2 ^ k) t))"
proof (induction "heightOf (Suc (length ls)) - k" arbitrary: k t)
  case 0
  then have k: "k = heightOf (Suc (length ls))" by simp
  have "heightOf (length ls) \<le> k" unfolding k by (rule heightOf_mono) simp
  then have "holds sha (ls @ [h]) t"
    using "0.prems"(2,3) by (auto simp: holds_def k)
  then show ?case by (subst (1 2) rebuildPath_loop.simps) (simp add: k)
next
  case (Suc d)
  define N where "N = length ls"
  define p where "p = N div 2 ^ Suc k"
  define q :: nat where "q = 2 ^ Suc k"
  have q: "0 < q" by (simp add: q_def)
  from Suc.hyps have klt: "k < heightOf (Suc N)" by (simp add: N_def)
  have "N div (2 ^ k * 2) = N div 2 ^ k div 2" by (rule div_mult2_eq)
  then have pdiv: "N div 2 ^ k div 2 = p" by (simp add: p_def mult.commute)
  have pq: "p * q \<le> N" by (simp add: p_def q_def)
  then have left_in: "(p * 2) * 2 ^ k < Suc N" by (simp add: q_def mult.assoc)
  have node: "\<And>l i. getNode t l i =
       (if l \<le> k then (if i * 2 ^ l < Suc N then Some (nodeHash sha (ls @ [h]) l i) else None)
        else (if l \<le> heightOf N \<and> i * 2 ^ l < N then Some (nodeHash sha ls l i) else None))"
    using Suc.prems(3) by (simp add: N_def)
  have L: "getNode t k (p * 2) = Some (nodeHash sha (ls @ [h]) k (p * 2))"
    using left_in by (simp add: node)
  have Lg: "hexHash (nodeHash sha (ls @ [h]) k (p * 2))"
    using left_in by (intro hexHash_nodeHash [OF sha good]) (simp add: N_def)
  define ph where "ph = nodeHash sha (ls @ [h]) (Suc k) p"
  define t1 where "t1 = setNode (Suc k) p ph t"
  have step: "rebuildPath_loop sha (heightOf (Suc N)) k (N div 2 ^ k) t
            = rebuildPath_loop sha (heightOf (Suc N)) (Suc k) p t1"
  proof (cases "(p * 2 + 1) * 2 ^ k < Suc N")
    case True
    then have R: "getNode t k (Suc (p * 2)) = Some (nodeHash sha (ls @ [h]) k (p * 2 + 1))"
      by (simp add: node)
    have Rg: "hexHash (nodeHash sha (ls @ [h]) k (p * 2 + 1))"
      using True by (intro hexHash_nodeHash [OF sha good]) (simp add: N_def)
    have "ph = hashPair sha (nodeHash sha (ls @ [h]) k (p * 2)) (nodeHash sha (ls @ [h]) k (p * 2 + 1))"
      using True by (simp add: ph_def N_def mult.commute)
    then show ?thesis
      using klt L R Lg Rg
      by (subst rebuildPath_loop.simps)
         (simp add: Let_def pdiv truthy_hexHash hashInternal_hexHash t1_def)
  next
    case False
    then have R: "getNode t k (Suc (p * 2)) = None"
      by (simp add: node)
    have "ph = hashPair sha (nodeHash sha (ls @ [h]) k (p * 2)) (nodeHash sha (ls @ [h]) k (p * 2))"
      using False by (simp add: ph_def N_def mult.commute)
    then show ?thesis
      using klt L R Lg
      by (subst rebuildPath_loop.simps)
         (simp add: Let_def pdiv truthy_hexHash hashInternal_hexHash hashSingle_def t1_def)
  qed
  have node1: "getNode t1 l i =
       (if l \<le> Suc k then (if i * 2 ^ l < Suc N then Some (nodeHash sha (ls @ [h]) l i) else None)
        else (if l \<le> heightOf N \<and> i * 2 ^ l < N then Some (nodeHash sha ls l i) else None))" for l i
  proof (cases "l = Suc k")
    case l: True
    show ?thesis
    proof (cases "i = p")
      case True
      with pq show ?thesis by (simp add: t1_def getNode_setNode l ph_def q_def)
    next
      case False
      show ?thesis
      proof (cases "i * q \<le> N")
        case True
        with q False have full: "(i + 1) * q \<le> N" unfolding p_def q_def by (intro off_path)
        then have "Suc k \<le> heightOf N" unfolding q_def by (rule level_le_height)
        moreover have "i * q < N" using full q by (simp add: algebra_simps)
        moreover have "nodeHash sha (ls @ [h]) (Suc k) i = nodeHash sha ls (Suc k) i"
          using full unfolding q_def N_def by (rule nodeHash_append)
        ultimately show ?thesis
          using False True by (simp add: t1_def getNode_setNode l node q_def del: nodeHash.simps)
      next
        case nle: False
        then show ?thesis
          using False by (simp add: t1_def getNode_setNode l node q_def del: nodeHash.simps)
      qed
    qed
  next
    case False
    then show ?thesis by (auto simp: t1_def getNode_setNode node)
  qed
  have "fst (rebuildPath_loop sha (heightOf (Suc (length ls))) (Suc k) (length ls div 2 ^ Suc k) t1) = Inr ()
    \<and> holds sha (ls @ [h]) (snd (rebuildPath_loop sha (heightOf (Suc (length ls))) (Suc k) (length ls div 2 ^ Suc k) t1))"
  proof (rule Suc.hyps(1))
    show "d = heightOf (Suc (length ls)) - Suc k" using Suc.hyps(2) by simp
    show "Suc k \<le> heightOf (Suc (length ls))" using klt by (simp add: N_def)
    show "leafCount t1 = Suc (length ls)" using Suc.prems(2) by (simp add: t1_def)
    show "\<forall>l i. getNode t1 l i =
       (if l \<le> Suc k then (if i * 2 ^ l < Suc (length ls) then Some (nodeHash sha (ls @ [h]) l i) else None)
        else (if l \<le> heightOf (length ls) \<and> i * 2 ^ l < length ls
              then Some (nodeHash sha ls l i) else None))"
      using node1 unfolding N_def by blast
  qed
  with step show ?case by (simp add: N_def p_def)
qed

lemma holds_new: "holds sha [] newMerkleTree"
  by (simp add: holds_def newMerkleTree_def getNode_def getLevel_def)

lemma addLeafHash_holds:
  assumes sha: "shaNonempty sha" and good: "\<forall>x\<in>set (ls @ [h]). hexHash x"
    and t: "holds sha ls t"
  shows "fst (addLeafHash sha h t) = Inr (length ls) \<and> holds sha (ls @ [h]) (snd (addLeafHash sha h t))"
proof -
  define t2 where "t2 = (setNode 0 (leafCount t) h t)\<lparr>leafCount := leafCount t + 1\<rparr>"
  have n: "leafCount t = length ls" using t by (simp add: holds_def)
  have r: "rebuildPath sha (leafCount t) t2
    = rebuildPath_loop sha (heightOf (Suc (length ls))) 0 (length ls div 2 ^ 0) t2"
    by (simp add: rebuildPath_def getHeight_def t2_def n)
  have "fst (rebuildPath_loop sha (heightOf (Suc (length ls))) 0 (length ls div 2 ^ 0) t2) = Inr ()
    \<and> holds sha (ls @ [h]) (snd (rebuildPath_loop sha (heightOf (Suc (length ls))) 0 (length ls div 2 ^ 0) t2))"
  proof (rule rebuildPath_loop_holds [OF sha good])
    show "0 \<le> heightOf (Suc (length ls))" by simp
    show "leafCount t2 = Suc (length ls)" by (simp add: t2_def n)
    show "\<forall>l i. getNode t2 l i =
       (if l \<le> 0 then (if i * 2 ^ l < Suc (length ls) then Some (nodeHash sha (ls @ [h]) l i) else None)
        else (if l \<le> heightOf (length ls) \<and> i * 2 ^ l < length ls
              then Some (nodeHash sha ls l i) else None))"
      using t by (auto simp: t2_def getNode_setNode holds_def nth_append)
  qed
  with r n show ?thesis
    by (auto simp: addLeafHash_def Let_def t2_def split: prod.splits sum.splits)
qed

text \<open>The hash an append stores at level 0.\<close>

lemma append_holds:
  assumes sha: "shaNonempty sha" and good: "\<forall>x\<in>set ls. hexHash x"
    and a: "hexHash (leafHashOf sha a)" and t: "holds sha ls t"
  shows "holds sha (ls @ [leafHashOf sha a]) (append sha a t)"
proof -
  have "holds sha (ls @ [leafHashOf sha a]) (snd (addLeafHash sha (leafHashOf sha a) t))"
    using addLeafHash_holds [OF sha _ t, of "leafHashOf sha a"] good a by simp
  then show ?thesis
    by (cases a) (simp_all add: append_def addLeaf_state leafHashOf_def)
qed

lemma appendAll_holds:
  assumes sha: "shaNonempty sha"
  shows "\<forall>x\<in>set ls. hexHash x \<Longrightarrow> \<forall>a\<in>set as. hexHash (leafHashOf sha a) \<Longrightarrow> holds sha ls t \<Longrightarrow>
    holds sha (ls @ map (leafHashOf sha) as) (appendAll sha as t)"
proof (induction as arbitrary: ls t)
  case Nil
  then show ?case by (simp add: appendAll_def)
next
  case (Cons a as)
  have "holds sha (ls @ [leafHashOf sha a]) (append sha a t)"
    using Cons.prems by (intro append_holds [OF sha]) simp_all
  then have "holds sha ((ls @ [leafHashOf sha a]) @ map (leafHashOf sha) as)
      (appendAll sha as (append sha a t))"
    using Cons.prems by (intro Cons.IH) auto
  then show ?case by (simp add: appendAll_def)
qed

subsection \<open>Proofs generated from the stored nodes\<close>

lemma generateProof_loop_acc:
  "generateProof_loop t H l c acc = acc @ generateProof_loop t H l c []"
proof (induction "H - l" arbitrary: l c acc)
  case 0
  then show ?case by (subst (1 2) generateProof_loop.simps) simp
next
  case (Suc d)
  then have lt: "l < H" and d: "d = H - Suc l" by simp_all
  note IH = Suc.hyps(1) [OF d]
  have step: "generateProof_loop t H (Suc l) c' (acc @ [x])
      = acc @ generateProof_loop t H (Suc l) c' [x]" for c' x
    using IH [of c' "acc @ [x]"] IH [of c' "[x]"] by simp
  show ?case
    by (subst (1 2) generateProof_loop.simps)
       (simp add: lt Let_def step split: option.splits)
qed

lemma xor_Suc_0_nat: "c XOR Suc 0 = (if even c then Suc c else c - 1)"
  by (simp add: xor_Suc_0_eq)

lemma generateProof_loop_step:
  assumes "l < H"
  shows "generateProof_loop t H l c [] =
    (case getNode t l (c XOR 1) of
       Some sh \<Rightarrow> \<lparr>sib_hash = sh,
                    sib_position = (if c mod 2 = 0 then PosRight else PosLeft)\<rparr>
       | None \<Rightarrow> \<lparr>sib_hash = (case getNode t l c of Some s \<Rightarrow> s | None \<Rightarrow> ''undefined''),
                    sib_position = PosRight\<rparr>)
    # generateProof_loop t H (Suc l) (c div 2) []"
proof -
  have one: "generateProof_loop t H l' c' [x] = x # generateProof_loop t H l' c' []" for l' c' x
    using generateProof_loop_acc [of t H l' c' "[x]"] by simp
  show ?thesis
    by (subst generateProof_loop.simps) (simp add: assms Let_def one split: option.splits)
qed

lemma verify_generated:
  assumes sha: "shaNonempty sha" and good: "\<forall>x\<in>set ls. hexHash x" and t: "holds sha ls t"
  shows "l \<le> heightOf (length ls) \<Longrightarrow> c * 2 ^ l < length ls \<Longrightarrow>
    verifyProof_loop sha (nodeHash sha ls l c) (generateProof_loop t (heightOf (length ls)) l c [])
      = Inr (nodeHash sha ls (heightOf (length ls)) (c div 2 ^ (heightOf (length ls) - l)))"
proof (induction "heightOf (length ls) - l" arbitrary: l c)
  case 0
  then show ?case by (subst generateProof_loop.simps) simp
next
  case (Suc d)
  define H where "H = heightOf (length ls)"
  define N where "N = length ls"
  from Suc.hyps(2) have lt: "l < H" and d: "d = heightOf (length ls) - Suc l"
    by (simp_all add: H_def)
  have node: "getNode t l i = (if i * 2 ^ l < N then Some (nodeHash sha ls l i) else None)" for i
    using t lt by (simp add: holds_def H_def N_def)
  have c: "c * 2 ^ l < N" using Suc.prems(2) by (simp add: N_def)
  have up: "(c div 2) * 2 ^ Suc l < length ls"
  proof -
    have "c div 2 * 2 \<le> c" by simp
    then have "(c div 2 * 2) * 2 ^ l \<le> c * 2 ^ l" by (rule mult_le_mono1)
    moreover have "(c div 2) * 2 ^ Suc l = (c div 2 * 2) * 2 ^ l" by (simp add: mult.assoc)
    ultimately show ?thesis using c unfolding N_def by linarith
  qed
  have cg: "hexHash (nodeHash sha ls l c)"
    using c by (intro hexHash_nodeHash [OF sha good]) (simp add: N_def)
  have IH: "verifyProof_loop sha (nodeHash sha ls (Suc l) (c div 2))
      (generateProof_loop t H (Suc l) (c div 2) [])
      = Inr (nodeHash sha ls H (c div 2 div 2 ^ (H - Suc l)))"
    unfolding H_def using lt up by (intro Suc.hyps(1) [OF d]) (simp_all add: H_def)
  have "(2::nat) ^ (H - l) = 2 * 2 ^ (H - Suc l)"
    using lt by (metis Suc_diff_Suc power_Suc)
  then have idx: "c div 2 div 2 ^ (H - Suc l) = c div 2 ^ (H - l)"
    by (simp add: div_mult2_eq)
  note gen = generateProof_loop_step [OF lt, of t c]
  show ?case
  proof (cases "even c")
    case True
    then have c2: "2 * (c div 2) = c" and m: "c mod 2 = 0" by simp_all
    show ?thesis
    proof (cases "Suc c * 2 ^ l < N")
      case sib: True
      have sg: "hexHash (nodeHash sha ls l (Suc c))"
        using sib by (intro hexHash_nodeHash [OF sha good]) (simp add: N_def)
      have par: "nodeHash sha ls (Suc l) (c div 2)
          = hashPair sha (nodeHash sha ls l c) (nodeHash sha ls l (Suc c))"
        using sib c2 by (simp add: N_def)
      have "generateProof_loop t H l c [] =
          \<lparr>sib_hash = nodeHash sha ls l (Suc c), sib_position = PosRight\<rparr>
          # generateProof_loop t H (Suc l) (c div 2) []"
        using True sib m unfolding gen by (simp add: xor_Suc_0_nat node del: nodeHash.simps)
      then show ?thesis
        unfolding H_def [symmetric]
        by (simp add: hashInternal_hexHash [OF cg sg] par [symmetric] IH idx del: nodeHash.simps)
    next
      case nosib: False
      have par: "nodeHash sha ls (Suc l) (c div 2)
          = hashPair sha (nodeHash sha ls l c) (nodeHash sha ls l c)"
        using nosib c2 by (simp add: N_def)
      have "generateProof_loop t H l c [] =
          \<lparr>sib_hash = nodeHash sha ls l c, sib_position = PosRight\<rparr>
          # generateProof_loop t H (Suc l) (c div 2) []"
        using True nosib c unfolding gen by (simp add: xor_Suc_0_nat node del: nodeHash.simps)
      then show ?thesis
        unfolding H_def [symmetric]
        by (simp add: hashInternal_hexHash [OF cg cg] par [symmetric] IH idx del: nodeHash.simps)
    qed
  next
    case False
    then have c2: "2 * (c div 2) = c - Suc 0" and c1: "Suc (c - Suc 0) = c" "0 < c"
      by (auto elim: oddE)
    have sib: "(c - Suc 0) * 2 ^ l < N"
      using c by (metis diff_le_self le_less_trans mult_le_mono1)
    have sg: "hexHash (nodeHash sha ls l (c - Suc 0))"
      using sib by (intro hexHash_nodeHash [OF sha good]) (simp add: N_def)
    have par: "nodeHash sha ls (Suc l) (c div 2)
        = hashPair sha (nodeHash sha ls l (c - Suc 0)) (nodeHash sha ls l c)"
      using c c2 c1 by (simp add: N_def)
    have m: "c mod 2 \<noteq> 0" using False by presburger
    have "generateProof_loop t H l c [] =
        \<lparr>sib_hash = nodeHash sha ls l (c - Suc 0), sib_position = PosLeft\<rparr>
        # generateProof_loop t H (Suc l) (c div 2) []"
      using False sib m unfolding gen by (simp add: xor_Suc_0_nat node del: nodeHash.simps)
    then show ?thesis
      unfolding H_def [symmetric]
      by (simp add: hashInternal_hexHash [OF sg cg] par [symmetric] IH idx del: nodeHash.simps)
  qed
qed

lemma shaNonempty_sumHash: "shaNonempty sumHash"
  by (simp add: shaNonempty_def sumHash_def)

lemma hexHash_00ff: "hexHash ''00ff''"
  by (simp add: hexHash_def isHex_def hexVal_def)

subsection \<open>Claim C10\<close>

text \<open>
  C10. Appending a leaf, through \<^verbatim>\<open>addLeaf\<close> or \<^verbatim>\<open>addLeafHash\<close>, to a tree with
  \<open>leafCount t = n\<close> stores the new hash at level 0, index \<open>n\<close>, makes the leaf count
  \<open>n + 1\<close>, returns the index \<open>n\<close> unless it throws, and leaves every other entry of level 0
  as it was; no sequence of later appends changes the level-0 entries below \<open>n\<close>.
  This holds whether or not the call throws.
\<close>

theorem append_only_leaves:
  "getNode (snd (addLeafHash sha h t)) 0 (leafCount t) = Some h
   \<and> leafCount (snd (addLeafHash sha h t)) = leafCount t + 1
   \<and> fst (addLeafHash sha h t) \<in> {Inr (leafCount t)} \<union> range Inl
   \<and> getNode (snd (addLeaf sha d t)) 0 (leafCount t) = Some (hashLeaf sha d)
   \<and> leafCount (snd (addLeaf sha d t)) = leafCount t + 1
   \<and> fst (addLeaf sha d t) \<in> {Inr (hashLeaf sha d, leafCount t)} \<union> range Inl
   \<and> (\<forall>i. i \<noteq> leafCount t \<longrightarrow>
         getNode (snd (addLeafHash sha h t)) 0 i = getNode t 0 i
       \<and> getNode (snd (addLeaf sha d t)) 0 i = getNode t 0 i)
   \<and> (\<forall>later i. i < leafCount t \<longrightarrow> getNode (appendAll sha later t) 0 i = getNode t 0 i)"
proof -
  have "fst (addLeafHash sha h t) \<in> {Inr (leafCount t)} \<union> range Inl"
    by (auto simp: addLeafHash_def Let_def split: prod.splits sum.splits)
  moreover have "fst (addLeaf sha d t) \<in> {Inr (hashLeaf sha d, leafCount t)} \<union> range Inl"
    by (auto simp: addLeaf_def Let_def split: prod.splits sum.splits)
  ultimately show ?thesis
    by (simp add: addLeaf_state addLeafHash_level0 addLeafHash_leafCount appendAll_level0)
qed

theorem append_only_leaves_witness:
  "(0::nat) < leafCount (appendAll sumHash [AddLeaf (Text ''a'')] newMerkleTree)
   \<and> getNode (appendAll sumHash [AddLeafHash ''00ff'', AddLeaf (Bytes [1, 2])]
         (appendAll sumHash [AddLeaf (Text ''a'')] newMerkleTree)) 0 0
     = getNode (appendAll sumHash [AddLeaf (Text ''a'')] newMerkleTree) 0 0
   \<and> (1::nat) \<noteq> leafCount newMerkleTree
   \<and> getNode (snd (addLeafHash sumHash ''00ff'' newMerkleTree)) 0 1 = getNode newMerkleTree 0 1"
proof -
  have n: "leafCount (appendAll sumHash [AddLeaf (Text ''a'')] newMerkleTree) = 1"
    by (simp add: appendAll_leafCount newMerkleTree_def)
  have z: "leafCount newMerkleTree = 0" by (simp add: newMerkleTree_def)
  show ?thesis
    using append_only_leaves [of sumHash "''00ff''"
        "appendAll sumHash [AddLeaf (Text ''a'')] newMerkleTree" "Bytes []"]
      append_only_leaves [of sumHash "''00ff''" newMerkleTree "Bytes []"]
    unfolding n z by simp
qed

text \<open>Every leaf of a tree that holds the node hashes of its leaves has a proof, and the
  proof verifies against the root.\<close>

lemma generateProof_holds:
  assumes sha: "shaNonempty sha" and good: "\<forall>x\<in>set ls. hexHash x" and t: "holds sha ls t"
    and i: "i < length ls"
  shows "leafCount t = length ls
    \<and> (\<exists>p. generateProof t (int i) = Some p
          \<and> mp_leafHash p = ls ! i
          \<and> mp_leafIndex p = i
          \<and> mp_rootHash p = nodeHash sha ls (heightOf (length ls)) 0
          \<and> getRoot t = Some (mp_rootHash p)
          \<and> verifyProof sha p = Inr True)"
proof -
  define H where "H = heightOf (length ls)"
  from t have cnt: "leafCount t = length ls" by (simp add: holds_def)
  from i have pos: "0 < length ls" by (cases ls) simp_all
  have "length ls \<le> 2 ^ H" unfolding H_def by (rule heightOf_ge)
  with i have idx: "i div 2 ^ H = 0" by simp
  have rootN: "getNode t H 0 = Some (nodeHash sha ls H 0)"
    using t pos by (simp add: holds_def H_def)
  have "hexHash (nodeHash sha ls H 0)"
    using pos by (intro hexHash_nodeHash [OF sha good]) simp
  then have root: "truthy (getRoot t) = Some (nodeHash sha ls H 0)"
    "getRoot t = Some (nodeHash sha ls H 0)"
    using pos rootN cnt by (simp_all add: getRoot_def getHeight_def H_def truthy_hexHash)
  have leafN: "getNode t 0 i = Some (ls ! i)"
    using t i by (simp add: holds_def)
  have "hexHash (ls ! i)" using good i by simp
  then have leaf: "truthy (getNode t 0 i) = Some (ls ! i)"
    by (simp add: leafN truthy_hexHash)
  have "verifyProof_loop sha (nodeHash sha ls 0 i) (generateProof_loop t (heightOf (length ls)) 0 i [])
      = Inr (nodeHash sha ls (heightOf (length ls)) (i div 2 ^ (heightOf (length ls) - 0)))"
    using i by (intro verify_generated [OF sha good t]) simp_all
  then have ver: "verifyProof_loop sha (ls ! i) (generateProof_loop t H 0 i []) = Inr (nodeHash sha ls H 0)"
    by (simp add: H_def [symmetric] idx)
  have gp: "generateProof t (int i) =
      Some \<lparr>mp_leafHash = ls ! i, mp_leafIndex = i,
            mp_siblings = generateProof_loop t H 0 i [], mp_rootHash = nodeHash sha ls H 0\<rparr>"
    using i cnt root(1) leaf by (simp add: generateProof_def getHeight_def H_def)
  with root(2) ver cnt show ?thesis
    by (simp add: verifyProof_def H_def)
qed

subsection \<open>Claim C1\<close>

text \<open>
  C1. Let leaves be appended to an initially empty tree, each through \<^verbatim>\<open>addLeaf\<close> or through
  \<^verbatim>\<open>addLeafHash\<close> with a hex-encoded hash, giving a leaf count \<open>n \<ge> 1\<close> (any \<open>n\<close>, so also
  1, 2, 3, 4, 5, 7, 8, 16 and 17). Then for every leaf index \<open>i < n\<close>, \<^verbatim>\<open>generateProof(i)\<close>
  returns a proof for the \<open>i\<close>-th leaf whose \<open>rootHash\<close> is the tree's current root
  (\<^verbatim>\<open>getRoot()\<close>), and \<^verbatim>\<open>MerkleTree.verifyProof\<close> returns true on it. SHA-256 is only assumed
  to return at least one byte.
\<close>

theorem generated_proofs_verify:
  assumes "shaNonempty sha"
    and "\<forall>h. AddLeafHash h \<in> set as \<longrightarrow> hexHash h"
    and "i < length as"
  shows "leafCount (appendAll sha as newMerkleTree) = length as
    \<and> (\<exists>p. generateProof (appendAll sha as newMerkleTree) (int i) = Some p
          \<and> mp_leafHash p = leafHashOf sha (as ! i)
          \<and> mp_leafIndex p = i
          \<and> getRoot (appendAll sha as newMerkleTree) = Some (mp_rootHash p)
          \<and> verifyProof sha p = Inr True)"
proof -
  define t where "t = appendAll sha as newMerkleTree"
  define ls where "ls = map (leafHashOf sha) as"
  have good_as: "\<forall>a\<in>set as. hexHash (leafHashOf sha a)"
  proof
    fix a assume "a \<in> set as"
    with assms(1,2) show "hexHash (leafHashOf sha a)"
      by (cases a) (auto simp: leafHashOf_def hexHash_hashLeaf)
  qed
  then have good: "\<forall>x\<in>set ls. hexHash x" by (simp add: ls_def)
  have t: "holds sha ls t"
    using appendAll_holds [OF assms(1) _ good_as holds_new] by (simp add: t_def ls_def)
  have i: "i < length ls" using assms(3) by (simp add: ls_def)
  have "ls ! i = leafHashOf sha (as ! i)" "length ls = length as"
    using assms(3) by (simp_all add: ls_def)
  with generateProof_holds [OF assms(1) good t i] show ?thesis
    unfolding t_def [symmetric] by auto
qed

theorem generated_proofs_verify_witness:
  "leafCount (appendAll sumHash [AddLeaf (Text ''a''), AddLeafHash ''00ff'', AddLeaf (Bytes [1, 2])]
      newMerkleTree) = 3
   \<and> (\<exists>p. generateProof (appendAll sumHash
              [AddLeaf (Text ''a''), AddLeafHash ''00ff'', AddLeaf (Bytes [1, 2])] newMerkleTree) 2 = Some p
          \<and> mp_leafHash p = hashLeaf sumHash (Bytes [1, 2])
          \<and> mp_leafIndex p = 2
          \<and> getRoot (appendAll sumHash
              [AddLeaf (Text ''a''), AddLeafHash ''00ff'', AddLeaf (Bytes [1, 2])] newMerkleTree)
              = Some (mp_rootHash p)
          \<and> verifyProof sumHash p = Inr True)"
proof -
  have h: "\<forall>h. AddLeafHash h \<in> set [AddLeaf (Text ''a''), AddLeafHash ''00ff'', AddLeaf (Bytes [1, 2])]
      \<longrightarrow> hexHash h"
    using hexHash_00ff by simp
  have i: "2 < length [AddLeaf (Text ''a''), AddLeafHash ''00ff'', AddLeaf (Bytes [1, 2])]"
    by simp
  show ?thesis
    using generated_proofs_verify [OF shaNonempty_sumHash h i]
    by (simp add: leafHashOf_def)
qed

section \<open>Canonicalization\<close>

lemma sort_cong_distinct:
  fixes xs ys :: "'a::linorder list"
  assumes "distinct xs" "distinct ys" "set xs = set ys"
  shows "sort xs = sort ys"
proof (rule sorted_distinct_set_unique)
  show "sorted (sort xs)" "sorted (sort ys)" by simp_all
  show "distinct (sort xs)" "distinct (sort ys)" using assms by simp_all
  show "set (sort xs) = set (sort ys)" using assms by simp
qed

lemma sortObjectKeys_keyPermEq: "keyPermEq a b \<Longrightarrow> sortObjectKeys a = sortObjectKeys b"
proof (induction a b rule: keyPermEq.induct)
  case (1 ps qs)
  from "1.prems" have all: "distinct (map fst ps) \<and> distinct (map fst qs)
      \<and> set (map fst ps) = set (map fst qs)
      \<and> list_all (\<lambda>k. keyPermEq (getProp ps k) (getProp qs k)) (map fst ps)"
    by (simp only: keyPermEq.simps(1))
  then have d: "distinct (map fst ps)" "distinct (map fst qs)"
    and s: "set (map fst ps) = set (map fst qs)" by blast+
  from all have "list_all (\<lambda>k. keyPermEq (getProp ps k) (getProp qs k)) (map fst ps)" by blast
  then have v: "\<forall>k\<in>set (map fst ps). keyPermEq (getProp ps k) (getProp qs k)"
    unfolding list_all_iff .
  have keys: "sort (map fst ps) = sort (map fst qs)"
    using d s by (rule sort_cong_distinct)
  have "foldl (\<lambda>sorted key. setProp key (sortObjectKeys (getProp ps key)) sorted) []
          (sort (map fst ps))
      = foldl (\<lambda>sorted key. setProp key (sortObjectKeys (getProp qs key)) sorted) []
          (sort (map fst ps))"
  proof (rule foldl_cong [OF refl refl])
    fix sorted key
    assume "key \<in> set (sort (map fst ps))"
    then have k: "key \<in> set (map fst ps)" by simp
    with v have "keyPermEq (getProp ps key) (getProp qs key)" by blast
    with k have "sortObjectKeys (getProp ps key) = sortObjectKeys (getProp qs key)"
      by (rule "1.IH")
    then show "setProp key (sortObjectKeys (getProp ps key)) sorted
      = setProp key (sortObjectKeys (getProp qs key)) sorted" by simp
  qed
  then show ?case by (simp add: sortObjectKeys.simps(7) keys)
next
  case (2 xs ys)
  from "2.prems" have l: "length xs = length ys"
    and e: "\<forall>i<length xs. keyPermEq (xs ! i) (ys ! i)"
    by (simp_all add: list_all2_conv_all_nth)
  have "map sortObjectKeys xs = map sortObjectKeys ys"
  proof (rule nth_equalityI)
    show "length (map sortObjectKeys xs) = length (map sortObjectKeys ys)" using l by simp
  next
    fix i assume "i < length (map sortObjectKeys xs)"
    then have i: "i < length xs" by simp
    with e have "keyPermEq (xs ! i) (ys ! i)" by blast
    moreover have "xs ! i \<in> set xs" "ys ! i \<in> set ys" using i l by simp_all
    ultimately have "sortObjectKeys (xs ! i) = sortObjectKeys (ys ! i)"
      using "2.IH" by blast
    with i l show "map sortObjectKeys xs ! i = map sortObjectKeys ys ! i" by simp
  qed
  then show ?case by simp
qed simp_all

lemma canonicalizeCommitment_keyPermEq:
  assumes "cm_id c1 = cm_id c2" "cm_type c1 = cm_type c2" "cm_timestamp c1 = cm_timestamp c2"
    "cm_signature c1 = cm_signature c2" "keyPermEq (cm_payload c1) (cm_payload c2)"
  shows "canonicalizeCommitment c1 = canonicalizeCommitment c2"
  using assms sortObjectKeys_keyPermEq [OF assms(5)]
  by (simp add: canonicalizeCommitment_def canonical_def)

lemma foldl_setProp_fresh:
  assumes "\<forall>k\<in>set ks. \<not> isArrayIndex k \<and> k \<noteq> ''__proto__''"
  shows "distinct ks \<Longrightarrow> set ks \<inter> fst ` set acc = {} \<Longrightarrow>
    foldl (\<lambda>sorted key. setProp key (f key) sorted) acc ks = acc @ map (\<lambda>k. (k, f k)) ks"
  using assms
proof (induction ks arbitrary: acc)
  case Nil
  then show ?case by simp
next
  case (Cons k ks)
  have "setProp k (f k) acc = acc @ [(k, f k)]"
    using Cons.prems by (simp add: setProp_def)
  moreover have "foldl (\<lambda>sorted key. setProp key (f key) sorted) (acc @ [(k, f k)]) ks
      = (acc @ [(k, f k)]) @ map (\<lambda>k. (k, f k)) ks"
    using Cons.prems by (intro Cons.IH) auto
  ultimately show ?case by simp
qed

text \<open>Where no key of an object is an array index or \<^verbatim>\<open>__proto__\<close>, the keys of the sorted
  object are the keys of the object, sorted.\<close>

lemma sortObjectKeys_sorted:
  assumes "distinct (map fst props)"
    and "\<forall>k\<in>fst ` set props. \<not> isArrayIndex k \<and> k \<noteq> ''__proto__''"
  shows "sortObjectKeys (JObj props)
    = JObj (map (\<lambda>k. (k, sortObjectKeys (getProp props k))) (sort (map fst props)))"
proof -
  have "foldl (\<lambda>sorted key. setProp key (sortObjectKeys (getProp props key)) sorted) []
      (sort (map fst props))
    = [] @ map (\<lambda>k. (k, sortObjectKeys (getProp props k))) (sort (map fst props))"
    using assms by (intro foldl_setProp_fresh) simp_all
  then show ?thesis by (simp add: sortObjectKeys.simps(7))
qed

subsection \<open>Claim C8\<close>

text \<open>
  C8. The claim: canonicalization does not depend on the order of object keys in
  \<open>payload\<close> and \<open>metadata\<close>; the top-level keys appear in the order id, payload, signature,
  timestamp, type; and the keys of every nested object appear in code-point-sorted order.
  The first part is \<open>canonicalizeCommitment_keyPermEq\<close>, the second is the definition of
  \<open>canonical\<close>, and \<open>sortObjectKeys_sorted\<close> gives the third for objects none of whose keys
  is an array index or \<^verbatim>\<open>__proto__\<close>. For keys that are array indices the third part
  fails: \<^verbatim>\<open>sortObjectKeys\<close> assigns the sorted keys to a plain object, and a JavaScript
  object enumerates array indices in numeric order whatever the order of assignment.
  For the metadata \<^verbatim>\<open>{"10": 1, "9": 2}\<close> the canonical text lists \<^verbatim>\<open>"9"\<close> before \<^verbatim>\<open>"10"\<close>,
  although \<^verbatim>\<open>"10"\<close> sorts before \<^verbatim>\<open>"9"\<close>.
\<close>

theorem canonical_keys_not_sorted:
  \<open>sort [''9'', ''10''] = [''10'', ''9'']
   \<and> sortObjectKeys (JObj [(''10'', JNum 1), (''9'', JNum 2)])
       = JObj [(''9'', JNum 2), (''10'', JNum 1)]
   \<and> canonicalizeCommitment
        \<lparr>cm_id = ''c1'', cm_type = ''custom'',
         cm_payload = JObj [(''subject'', JStr ''s''), (''content'', JStr ''x''),
                            (''metadata'', JObj [(''10'', JNum 1), (''9'', JNum 2)])],
         cm_timestamp = 1700000000000, cm_signature = '''',
         cm_leafHash = None, cm_treeIndex = None\<rparr>
       = ''{"id":"c1","payload":{"content":"x","metadata":{"9":2,"10":1},"subject":"s"},"signature":"","timestamp":1700000000000,"type":"custom"}''\<close>
  by (simp add: canonicalizeCommitment_def canonical_def sortObjectKeys.simps setProp_def
      getProp_def isArrayIndex_def isDigit_def decimalValue_def quoteJSON_def quoteChar_def
      numberToString_def digitsOf.simps)

section \<open>Opening a store\<close>

lemma rebuildTree_holds:
  assumes sha: "shaNonempty sha"
  shows "\<forall>c\<in>set cs. \<forall>h. cm_leafHash c = Some h \<longrightarrow> h \<noteq> [] \<longrightarrow> hexHash h \<Longrightarrow>
    \<forall>x\<in>set ls. hexHash x \<Longrightarrow> holds sha ls t \<Longrightarrow>
    \<exists>t'. rebuildTree sha cs t = Inr t'
      \<and> holds sha (ls @ filter (\<lambda>h. h \<noteq> []) (map (\<lambda>c. case cm_leafHash c of Some h \<Rightarrow> h | None \<Rightarrow> []) cs)) t'"
proof (induction cs arbitrary: ls t)
  case Nil
  then show ?case by simp
next
  case (Cons c cs)
  show ?case
  proof (cases "truthy (cm_leafHash c)")
    case None
    then have e: "(case cm_leafHash c of Some h \<Rightarrow> h | None \<Rightarrow> []) = []"
      by (auto simp: truthy_def split: option.splits if_splits)
    have "\<exists>t'. rebuildTree sha cs t = Inr t'
      \<and> holds sha (ls @ filter (\<lambda>h. h \<noteq> []) (map (\<lambda>c. case cm_leafHash c of Some h \<Rightarrow> h | None \<Rightarrow> []) cs)) t'"
      using Cons.prems by (intro Cons.IH) simp_all
    with None e show ?thesis by simp
  next
    case (Some h)
    then have h: "cm_leafHash c = Some h" "h \<noteq> []"
      by (auto simp: truthy_def split: option.splits if_splits)
    with Cons.prems(1) have hh: "hexHash h" by simp
    have good': "\<forall>x\<in>set (ls @ [h]). hexHash x" using Cons.prems(2) hh by simp
    from addLeafHash_holds [OF sha good' Cons.prems(3)]
    obtain t1 where a: "addLeafHash sha h t = (Inr (length ls), t1)" and t1: "holds sha (ls @ [h]) t1"
      by (cases "addLeafHash sha h t") auto
    have "\<exists>t'. rebuildTree sha cs t1 = Inr t'
      \<and> holds sha ((ls @ [h]) @ filter (\<lambda>h. h \<noteq> []) (map (\<lambda>c. case cm_leafHash c of Some h \<Rightarrow> h | None \<Rightarrow> []) cs)) t'"
      using Cons.prems(1) good' t1 by (intro Cons.IH) simp_all
    with Some a h show ?thesis by simp
  qed
qed

lemma leafHashes_getAllCommitments:
  "filter (\<lambda>h. h \<noteq> []) (map (\<lambda>c. case cm_leafHash c of Some h \<Rightarrow> h | None \<Rightarrow> []) (getAllCommitments d))
    = persistedLeaves d"
proof -
  have "(\<lambda>c. case cm_leafHash c of Some h \<Rightarrow> h | None \<Rightarrow> []) \<circ> rowToCommitment = row_leaf_hash"
    by (rule ext) (simp add: rowToCommitment_def)
  then show ?thesis by (simp add: getAllCommitments_def persistedLeaves_def)
qed

lemma getRoot_holds:
  assumes "holds sha ls t"
  shows "getRoot t = (if ls = [] then None else Some (nodeHash sha ls (heightOf (length ls)) 0))"
  using assms by (auto simp: holds_def getRoot_def getHeight_def)

subsection \<open>Claim C3\<close>

text \<open>
  C3. The claim: on every open, if the root rebuilt by replaying the persisted commitments
  in \<open>treeIndex\<close> order differs from the persisted \<open>tree_state\<close> root hash, \<^verbatim>\<open>AnchorStore.open\<close>
  refuses to open the store. The code has no such check: \<^verbatim>\<open>open\<close> never reads \<open>tree_state\<close>.
  On \<open>corruptDatabase\<close>, whose persisted root is \<open>demoRoot\<close>, it returns a store whose root is
  the rebuilt one, \<open>demoLeaf\<close>.
\<close>

theorem open_accepts_wrong_root:
  "ts_rootHash (getTreeState corruptDatabase) = Some demoRoot
   \<and> openedRoot sumHash demoKeyPair corruptDatabase = Inr (Some demoLeaf)
   \<and> demoLeaf \<noteq> demoRoot"
  by (simp add: openedRoot_def openStore_def getAllCommitments_def rowToCommitment_def
      corruptDatabase_def getTreeState_def truthy_def addLeafHash_def rebuildPath_def
      getHeight_def heightOf_def rebuildPath_loop.simps newMerkleTree_def setNode_def
      getLevel_def getRoot_def getNode_def demoLeaf_def demoRoot_def)

text \<open>
  C3, as amended. \<^verbatim>\<open>AnchorStore.open\<close> rebuilds the tree by replaying the persisted
  commitments in \<open>treeIndex\<close> order with their stored leaf hashes, and compares nothing with
  the persisted \<open>tree_state\<close>: where the stored leaf hashes are hex strings it returns a
  usable store on the database as it is, whose leaf count and root are those of the replayed
  leaves, and the store it returns is the same whatever \<open>tree_state\<close> holds.
\<close>

theorem open_rebuilds_tree:
  assumes "shaNonempty sha"
    and "\<forall>row\<in>set (commitments d). row_leaf_hash row \<noteq> [] \<longrightarrow> hexHash (row_leaf_hash row)"
  shows "\<exists>s. openStore sha keyPair d = Inr s
    \<and> st_db s = d
    \<and> leafCount (st_tree s) = length (persistedLeaves d)
    \<and> getRoot (st_tree s) =
        (if persistedLeaves d = [] then None
         else Some (nodeHash sha (persistedLeaves d) (heightOf (length (persistedLeaves d))) 0))
    \<and> openStore sha keyPair (d\<lparr>tree_state := state\<rparr>) = Inr (s\<lparr>st_db := d\<lparr>tree_state := state\<rparr>\<rparr>)"
proof -
  have "\<forall>c\<in>set (getAllCommitments d). \<forall>h. cm_leafHash c = Some h \<longrightarrow> h \<noteq> [] \<longrightarrow> hexHash h"
    using assms(2) by (auto simp: getAllCommitments_def rowToCommitment_def split: if_splits)
  from rebuildTree_holds [OF assms(1) this _ holds_new]
  obtain t where t: "rebuildTree sha (getAllCommitments d) newMerkleTree = Inr t"
    and h: "holds sha (persistedLeaves d) t"
    by (auto simp: leafHashes_getAllCommitments)
  have same: "getAllCommitments (d\<lparr>tree_state := state\<rparr>) = getAllCommitments d"
    by (simp add: getAllCommitments_def)
  from h have "leafCount t = length (persistedLeaves d)" by (simp add: holds_def)
  with t getRoot_holds [OF h] same show ?thesis
    by (simp add: openStore_def)
qed

theorem open_rebuilds_tree_witness:
  "\<exists>s. openStore sumHash demoKeyPair corruptDatabase = Inr s
    \<and> st_db s = corruptDatabase
    \<and> leafCount (st_tree s) = length (persistedLeaves corruptDatabase)
    \<and> getRoot (st_tree s) =
        (if persistedLeaves corruptDatabase = [] then None
         else Some (nodeHash sumHash (persistedLeaves corruptDatabase)
                 (heightOf (length (persistedLeaves corruptDatabase))) 0))
    \<and> openStore sumHash demoKeyPair (corruptDatabase\<lparr>tree_state := getState newMerkleTree\<rparr>)
        = Inr (s\<lparr>st_db := corruptDatabase\<lparr>tree_state := getState newMerkleTree\<rparr>\<rparr>)"
proof -
  have "hexHash demoLeaf"
    by (simp add: hexHash_def isHex_def hexVal_def demoLeaf_def)
  then have "\<forall>row\<in>set (commitments corruptDatabase).
      row_leaf_hash row \<noteq> [] \<longrightarrow> hexHash (row_leaf_hash row)"
    by (simp add: corruptDatabase_def)
  from open_rebuilds_tree [OF shaNonempty_sumHash this] show ?thesis .
qed

section \<open>Statements and transactions\<close>

lemma sha32_nonempty: "sha32 sha \<Longrightarrow> shaNonempty sha"
  unfolding sha32_def shaNonempty_def
proof
  fix x
  assume "\<forall>x. length (sha x) = 32"
  then have "length (sha x) = 32" by blast
  then show "sha x \<noteq> []" by auto
qed

lemma hash64_hexHash: "hash64 h \<Longrightarrow> hexHash h"
  by (auto simp: hash64_def hexHash_def)

lemma length_bytesToHex: "length (bytesToHex bs) = 2 * length bs"
  by (induction bs) (simp_all add: bytesToHex_def)

lemma hash64_bytesToHex: "length bs = 32 \<Longrightarrow> hash64 (bytesToHex bs)"
  by (simp add: hash64_def length_bytesToHex isHex_def hexToBytes_bytesToHex)

lemma hash64_hashLeaf: "sha32 sha \<Longrightarrow> hash64 (hashLeaf sha d)"
  by (simp add: hashLeaf_def Let_def hash64_bytesToHex sha32_def)

lemma hash64_hashPair:
  assumes "sha32 sha" "hexHash l" "hexHash r"
  shows "hash64 (hashPair sha l r)"
proof -
  from assms obtain x y where "hexToBytes l = Inr x" "hexToBytes r = Inr y"
    by (auto simp: hexHash_def isHex_def split: sum.splits)
  then have "hexToBytes (l @ r) = Inr (x @ y)" by (rule hexToBytes_append)
  then show ?thesis
    using assms(1) by (simp add: hashPair_def hashInternal_def hash64_bytesToHex sha32_def)
qed

lemma hash64_nodeHash:
  assumes sha: "sha32 sha" and good: "\<forall>h\<in>set ls. hash64 h" and i: "i * 2 ^ l < length ls"
  shows "hash64 (nodeHash sha ls l i)"
proof (cases l)
  case 0
  with good i show ?thesis by simp
next
  case (Suc l')
  have g: "\<forall>h\<in>set ls. hexHash h" using good by (simp add: hash64_hexHash)
  have n: "shaNonempty sha" using sha by (rule sha32_nonempty)
  from i Suc have "(2 * i) * 2 ^ l' < length ls" by (simp add: mult.assoc mult.left_commute)
  then have L: "hexHash (nodeHash sha ls l' (2 * i))" by (rule hexHash_nodeHash [OF n g])
  show ?thesis
  proof (cases "(2 * i + 1) * 2 ^ l' < length ls")
    case True
    then have "hexHash (nodeHash sha ls l' (2 * i + 1))" by (rule hexHash_nodeHash [OF n g])
    with True L sha Suc show ?thesis by (simp add: hash64_hashPair)
  next
    case False
    with L sha Suc show ?thesis by (simp add: hash64_hashPair)
  qed
qed

lemma length_hexToBytes: "hexToBytes h = Inr bs \<Longrightarrow> length h = 2 * length bs"
  by (induction h arbitrary: bs rule: hexToBytes.induct)
     (auto split: option.splits sum.splits)

lemma hash64_decodes: "hash64 h \<Longrightarrow> \<exists>bs. hexToBytes h = Inr bs \<and> length bs = 32"
  by (auto simp: hash64_def isHex_def split: sum.splits dest: length_hexToBytes)

text \<open>What a statement leaves alone.\<close>

lemma runWrite_Inr:
  assumes "runWrite change d = (Inr u, d')"
  shows "\<exists>d0. change d = Inr d0
    \<and> (case writesLeft d of None \<Rightarrow> d' = d0
         | Some n \<Rightarrow> \<exists>k. n = Suc k \<and> d' = d0\<lparr>writesLeft := Some k\<rparr>)"
  using assms
  by (cases "writesLeft d"; cases "change d")
     (auto simp: runWrite_def split: nat.splits)

lemma runWrite_Inl: "runWrite change d = (Inl e, d') \<Longrightarrow> d' = d"
  by (cases "writesLeft d"; cases "change d") (auto simp: runWrite_def split: nat.splits)

lemma runWrite_no_fault:
  "writesLeft d = None \<Longrightarrow> runWrite change d =
     (case change d of Inl e \<Rightarrow> (Inl e, d) | Inr d' \<Rightarrow> (Inr (), d'))"
  by (simp add: runWrite_def)

lemma transaction_Inl: "transaction fn d = (Inl e, d') \<Longrightarrow> d' = d"
  by (auto simp: transaction_def split: prod.splits sum.splits)

lemma upsertNodes_frame:
  "commitments (snd (upsertNodes ns d)) = commitments d
   \<and> anchors (snd (upsertNodes ns d)) = anchors d
   \<and> tree_state (snd (upsertNodes ns d)) = tree_state d
   \<and> (writesLeft d = None \<longrightarrow> writesLeft (snd (upsertNodes ns d)) = None
        \<and> fst (upsertNodes ns d) = Inr ())"
proof (induction ns arbitrary: d)
  case Nil
  then show ?case by simp
next
  case (Cons n ns)
  obtain r d1 where u: "upsertNode n d = (r, d1)" by (cases "upsertNode n d")
  have f: "commitments d1 = commitments d \<and> anchors d1 = anchors d \<and> tree_state d1 = tree_state d
      \<and> (writesLeft d = None \<longrightarrow> writesLeft d1 = None \<and> r = Inr ())"
    using u by (cases "writesLeft d") (auto simp: upsertNode_def runWrite_def split: nat.splits)
  show ?case
  proof (cases r)
    case (Inl e)
    with u f show ?thesis by (auto simp: andThen_def)
  next
    case (Inr x)
    with u f Cons.IH [of d1] show ?thesis by (auto simp: andThen_def)
  qed
qed

lemma saveTreeNodes_frame:
  "commitments (snd (saveTreeNodes ns d)) = commitments d
   \<and> anchors (snd (saveTreeNodes ns d)) = anchors d
   \<and> tree_state (snd (saveTreeNodes ns d)) = tree_state d
   \<and> (writesLeft d = None \<longrightarrow> writesLeft (snd (saveTreeNodes ns d)) = None
        \<and> fst (saveTreeNodes ns d) = Inr ())"
  using upsertNodes_frame [of ns d]
  by (cases "upsertNodes ns d") (auto simp: saveTreeNodes_def transaction_def split: sum.splits)

lemma saveTreeState_frame:
  "commitments (snd (saveTreeState st d)) = commitments d
   \<and> anchors (snd (saveTreeState st d)) = anchors d
   \<and> tree_nodes (snd (saveTreeState st d)) = tree_nodes d"
  by (cases "writesLeft d")
     (auto simp: saveTreeState_def transaction_def andThen_def runWrite_def
           split: prod.splits sum.splits nat.splits)

lemma saveTreeState_no_fault:
  "writesLeft d = None \<Longrightarrow> saveTreeState st d =
     (Inr (), d\<lparr>tree_state := \<lparr>ts_rootHash = truthy (ts_rootHash st), ts_leafCount = ts_leafCount st,
        ts_lastAnchorIndex = ts_lastAnchorIndex st\<rparr>\<rparr>)"
  by (simp add: saveTreeState_def transaction_def andThen_def runWrite_def)

lemma saveTreeState_Inr:
  assumes "saveTreeState st d = (Inr u, d')"
  shows "tree_state d' = \<lparr>ts_rootHash = truthy (ts_rootHash st), ts_leafCount = ts_leafCount st,
        ts_lastAnchorIndex = ts_lastAnchorIndex st\<rparr>
    \<and> (writesLeft d = None \<longrightarrow> writesLeft d' = None)"
  using assms
  by (cases "writesLeft d")
     (auto simp: saveTreeState_def transaction_def andThen_def runWrite_def
           split: prod.splits sum.splits nat.splits)

lemma addLeaf_result:
  "fst (addLeaf sha d t) = Inr r \<Longrightarrow> r = (hashLeaf sha d, leafCount t)"
  by (auto simp: addLeaf_def Let_def split: prod.splits sum.splits)

lemma andThen_Inr:
  assumes "andThen f g d = (Inr u, d')"
  shows "\<exists>d1. f d = (Inr (), d1) \<and> g d1 = (Inr u, d')"
  using assms by (cases "f d") (auto simp: andThen_def split: sum.splits)

lemma transaction_Inr: "transaction fn d = (Inr u, d') \<Longrightarrow> fn d = (Inr u, d')"
  by (cases "fn d") (auto simp: transaction_def split: sum.splits)

lemma insertCommitment_Inr:
  assumes "insertCommitment c d = (Inr u, d1)"
  shows "commitments d1 = commitments d @
      [\<lparr>row_id = cm_id c, row_type = cm_type c, row_payload = jsonRoundTrip (cm_payload c),
        row_signature = cm_signature c, row_timestamp = cm_timestamp c,
        row_leaf_hash = (case cm_leafHash c of Some h \<Rightarrow> h | None \<Rightarrow> ''''),
        row_tree_index = (case cm_treeIndex c of Some i \<Rightarrow> i | None \<Rightarrow> -1)\<rparr>]
    \<and> anchors d1 = anchors d \<and> tree_state d1 = tree_state d \<and> tree_nodes d1 = tree_nodes d
    \<and> (writesLeft d = None \<longrightarrow> writesLeft d1 = None)
    \<and> cm_id c \<notin> row_id ` set (commitments d)"
  using runWrite_Inr [OF assms [unfolded insertCommitment_def]]
  by (auto split: if_splits option.splits)

section \<open>Commits\<close>

lemma commit_unfold:
  "commit sha sign randomHex now input s =
     (case addLeaf sha
             (Text (canonicalizeCommitment
                (signedCommitment sign (privateKey (st_keyPair s)) randomHex now input)))
             (st_tree s) of
        (Inl e, t') \<Rightarrow> (Inl e, s\<lparr>st_tree := t'\<rparr>)
      | (Inr (h, index), t') \<Rightarrow>
          (case transaction
                  (andThen
                     (insertCommitment
                        ((signedCommitment sign (privateKey (st_keyPair s)) randomHex now input)
                           \<lparr>cm_leafHash := Some h, cm_treeIndex := Some (int index)\<rparr>))
                     (andThen (saveTreeState (getState t')) (saveTreeNodes (getAllNodes t'))))
                  (st_db s) of
             (Inl e, d') \<Rightarrow> (Inl e, s\<lparr>st_tree := t', st_db := d'\<rparr>)
           | (Inr u, d') \<Rightarrow>
               (Inr ((signedCommitment sign (privateKey (st_keyPair s)) randomHex now input)
                       \<lparr>cm_leafHash := Some h, cm_treeIndex := Some (int index)\<rparr>),
                s\<lparr>st_tree := t', st_db := d'\<rparr>)))"
  unfolding commit_def Let_def signedCommitment_def ..

lemma commit_Inr:
  assumes "commit sha sign randomHex now input s = (Inr c, s')"
  shows "\<exists>x row. st_tree s' = snd (addLeaf sha (Text x) (st_tree s))
    \<and> fst (addLeaf sha (Text x) (st_tree s)) = Inr (hashLeaf sha (Text x), leafCount (st_tree s))
    \<and> commitments (st_db s') = commitments (st_db s) @ [row]
    \<and> row_leaf_hash row = hashLeaf sha (Text x)
    \<and> row_tree_index row = int (leafCount (st_tree s))
    \<and> row_id row = ''commit_'' @ randomHex
    \<and> anchors (st_db s') = anchors (st_db s)
    \<and> (writesLeft (st_db s) = None \<longrightarrow> writesLeft (st_db s') = None)
    \<and> st_keyPair s' = st_keyPair s
    \<and> x = canonicalizeCommitment
            (signedCommitment sign (privateKey (st_keyPair s)) randomHex now input)
    \<and> row_type row = in_type input
    \<and> row_payload row = jsonRoundTrip (in_payload input)
    \<and> row_timestamp row = now
    \<and> row_signature row
        = cm_signature (signedCommitment sign (privateKey (st_keyPair s)) randomHex now input)
    \<and> tree_state (st_db s')
        = \<lparr>ts_rootHash = truthy (getRoot (st_tree s')), ts_leafCount = leafCount (st_tree s'),
           ts_lastAnchorIndex = -1\<rparr>"
proof -
  define c0 where "c0 = signedCommitment sign (privateKey (st_keyPair s)) randomHex now input"
  define x where "x = canonicalizeCommitment c0"
  obtain r t' where a: "addLeaf sha (Text x) (st_tree s) = (r, t')"
    by (cases "addLeaf sha (Text x) (st_tree s)")
  note u = assms [unfolded commit_unfold, folded c0_def, folded x_def]
  from u a obtain h index where r: "r = Inr (h, index)"
    by (cases r) auto
  from addLeaf_result [of sha "Text x" "st_tree s"] a r
  have hi: "h = hashLeaf sha (Text x)" "index = leafCount (st_tree s)" by simp_all
  define c' where "c' = c0\<lparr>cm_leafHash := Some h, cm_treeIndex := Some (int index)\<rparr>"
  obtain r2 d' where tx: "transaction
      (andThen (insertCommitment c')
         (andThen (saveTreeState (getState t')) (saveTreeNodes (getAllNodes t')))) (st_db s) = (r2, d')"
    by (cases "transaction
      (andThen (insertCommitment c')
         (andThen (saveTreeState (getState t')) (saveTreeNodes (getAllNodes t')))) (st_db s)")
  from u a r tx have res: "r2 = Inr ()" "s' = s\<lparr>st_tree := t', st_db := d'\<rparr>"
    by (cases r2; simp add: c'_def [symmetric])+
  from transaction_Inr tx res(1)
  have "andThen (insertCommitment c')
         (andThen (saveTreeState (getState t')) (saveTreeNodes (getAllNodes t'))) (st_db s)
        = (Inr (), d')" by simp
  from andThen_Inr [OF this] obtain d1 where ins: "insertCommitment c' (st_db s) = (Inr (), d1)"
    and rest: "andThen (saveTreeState (getState t')) (saveTreeNodes (getAllNodes t')) d1 = (Inr (), d')"
    by blast
  from andThen_Inr [OF rest] obtain d2 where st: "saveTreeState (getState t') d1 = (Inr (), d2)"
    and nd: "saveTreeNodes (getAllNodes t') d2 = (Inr (), d')"
    by blast
  note i = insertCommitment_Inr [OF ins]
  have f2: "commitments d2 = commitments d1" "anchors d2 = anchors d1"
    using saveTreeState_frame [of "getState t'" d1] st by simp_all
  have w2: "writesLeft d1 = None \<longrightarrow> writesLeft d2 = None"
    using st by (auto simp: saveTreeState_no_fault)
  have f3: "commitments d' = commitments d2" "anchors d' = anchors d2"
    "writesLeft d2 = None \<longrightarrow> writesLeft d' = None"
    using saveTreeNodes_frame [of "getAllNodes t'" d2] nd by simp_all
  define row where "row =
      \<lparr>row_id = cm_id c', row_type = cm_type c', row_payload = jsonRoundTrip (cm_payload c'),
        row_signature = cm_signature c', row_timestamp = cm_timestamp c',
        row_leaf_hash = (case cm_leafHash c' of Some h \<Rightarrow> h | None \<Rightarrow> ''''),
        row_tree_index = (case cm_treeIndex c' of Some i \<Rightarrow> i | None \<Rightarrow> -1)\<rparr>"
  have "st_tree s' = snd (addLeaf sha (Text x) (st_tree s))" using res(2) a by simp
  moreover have "fst (addLeaf sha (Text x) (st_tree s)) = Inr (hashLeaf sha (Text x), leafCount (st_tree s))"
    using a r hi by simp
  moreover have "commitments (st_db s') = commitments (st_db s) @ [row]"
    using res(2) f3(1) f2(1) i by (simp add: row_def)
  moreover have "row_leaf_hash row = hashLeaf sha (Text x)" "row_tree_index row = int (leafCount (st_tree s))"
    "row_id row = ''commit_'' @ randomHex"
    by (simp_all add: row_def c'_def hi c0_def signedCommitment_def)
  moreover have "anchors (st_db s') = anchors (st_db s)"
    using res(2) f3(2) f2(2) i by simp
  moreover have "writesLeft (st_db s) = None \<longrightarrow> writesLeft (st_db s') = None"
    using res(2) f3(3) w2 i by simp
  moreover have "st_keyPair s' = st_keyPair s" using res(2) by simp
  moreover have "x = canonicalizeCommitment
      (signedCommitment sign (privateKey (st_keyPair s)) randomHex now input)"
    by (simp add: x_def c0_def)
  moreover have "row_type row = in_type input" "row_payload row = jsonRoundTrip (in_payload input)"
    "row_timestamp row = now"
    by (simp_all add: row_def c'_def signedCommitment_def c0_def)
  moreover have "row_signature row
      = cm_signature (signedCommitment sign (privateKey (st_keyPair s)) randomHex now input)"
    by (simp add: row_def c'_def c0_def)
  moreover have "tree_state (st_db s')
        = \<lparr>ts_rootHash = truthy (getRoot (st_tree s')), ts_leafCount = leafCount (st_tree s'),
           ts_lastAnchorIndex = -1\<rparr>"
    using saveTreeState_Inr [OF st] saveTreeNodes_frame [of "getAllNodes t'" d2] nd res(2)
    by (simp add: getState_def)
  ultimately show ?thesis
    by (intro exI [of _ x] exI [of _ row] conjI)
qed

section \<open>Recording an anchor\<close>

lemma insertAnchor_Inr:
  assumes "insertAnchor a d = (Inr u, d1)"
  shows "anchors d1 = anchors d @ [a] \<and> commitments d1 = commitments d
    \<and> tree_state d1 = tree_state d \<and> tree_nodes d1 = tree_nodes d
    \<and> (writesLeft d = None \<longrightarrow> writesLeft d1 = None)
    \<and> an_anchorIndex a \<notin> an_anchorIndex ` set (anchors d)
    \<and> an_txid a \<notin> an_txid ` set (anchors d)"
  using runWrite_Inr [OF assms [unfolded insertAnchor_def]]
  by (auto split: if_splits option.splits)

lemma recordAnchor_Inr:
  assumes "recordAnchor txid timestamp now s = (Inr a, s')"
  shows "getRoot (st_tree s) = Some (an_rootHash a)
    \<and> an_commitmentCount a = leafCount (st_tree s)
    \<and> an_anchorIndex a =
        (case getLatestAnchor (st_db s) of Some l \<Rightarrow> an_anchorIndex l + 1 | None \<Rightarrow> 0)
    \<and> an_previousAnchor a = map_option an_txid (getLatestAnchor (st_db s))
    \<and> an_txid a = txid
    \<and> an_blockHeight a = None
    \<and> an_timestamp a = (case timestamp of Some ts \<Rightarrow> ts | None \<Rightarrow> now)
    \<and> anchors (st_db s') = anchors (st_db s) @ [a]
    \<and> commitments (st_db s') = commitments (st_db s)
    \<and> ts_lastAnchorIndex (tree_state (st_db s')) = an_anchorIndex a
    \<and> st_tree s' = st_tree s
    \<and> st_keyPair s' = st_keyPair s
    \<and> (writesLeft (st_db s) = None \<longrightarrow> writesLeft (st_db s') = None)"
proof -
  from assms obtain rootHash where root: "getRoot (st_tree s) = Some rootHash"
    by (cases "getRoot (st_tree s)") (auto simp: recordAnchor_def Let_def getState_def)
  define anchor where "anchor =
      \<lparr>an_txid = txid, an_blockHeight = None,
       an_timestamp = (case timestamp of Some ts \<Rightarrow> ts | None \<Rightarrow> now),
       an_rootHash = rootHash,
       an_commitmentCount = leafCount (st_tree s),
       an_anchorIndex =
         (case getLatestAnchor (st_db s) of Some a \<Rightarrow> an_anchorIndex a | None \<Rightarrow> -1) + 1,
       an_previousAnchor = map_option an_txid (getLatestAnchor (st_db s))\<rparr>"
  obtain r1 d1 where i: "insertAnchor anchor (st_db s) = (r1, d1)"
    by (cases "insertAnchor anchor (st_db s)")
  obtain r2 d2 where t: "saveTreeState ((getTreeState d1)\<lparr>ts_lastAnchorIndex := an_anchorIndex anchor\<rparr>) d1
      = (r2, d2)"
    by (cases "saveTreeState ((getTreeState d1)\<lparr>ts_lastAnchorIndex := an_anchorIndex anchor\<rparr>) d1")
  from assms root i have r1: "r1 = Inr ()"
    by (cases r1) (auto simp: recordAnchor_def Let_def getState_def anchor_def [symmetric])
  from assms root i r1 t have res: "r2 = Inr ()" "a = anchor" "s' = s\<lparr>st_db := d2\<rparr>"
    by (cases r2; simp add: recordAnchor_def Let_def getState_def anchor_def [symmetric])+
  note ia = insertAnchor_Inr [OF i [unfolded r1]]
  note st = saveTreeState_Inr [OF t [unfolded res(1)]]
  have fr: "commitments d2 = commitments d1" "anchors d2 = anchors d1"
    using saveTreeState_frame [of "(getTreeState d1)\<lparr>ts_lastAnchorIndex := an_anchorIndex anchor\<rparr>" d1] t
    by simp_all
  have idx: "an_anchorIndex anchor =
      (case getLatestAnchor (st_db s) of Some l \<Rightarrow> an_anchorIndex l + 1 | None \<Rightarrow> 0)"
    by (simp add: anchor_def split: option.splits)
  show ?thesis
    unfolding res(2,3) using root ia st fr idx
    by (simp add: anchor_def)
qed

section \<open>The invariant of the reachable stores\<close>

lemma storeInv_opened:
  assumes "openStore sha keyPair emptyDatabase = Inr s"
  shows "storeInv sha s"
  using assms
  by (auto simp: openStore_def getAllCommitments_def emptyDatabase_def storeInv_def holds_new)

lemma hexHash_Nil [simp]: "\<not> hexHash []"
  by (simp add: hexHash_def)

lemma storeInv_commit:
  assumes sha: "sha32 sha" and inv: "storeInv sha s"
    and c: "commit sha sign randomHex now input s = (Inr c, s')"
  shows "storeInv sha s'"
proof -
  define ls where "ls = map row_leaf_hash (commitments (st_db s))"
  from inv have h: "holds sha ls (st_tree s)" and g: "\<forall>h\<in>set ls. hash64 h"
    and ix: "map row_tree_index (commitments (st_db s)) = map int [0..<length (commitments (st_db s))]"
    and w: "writesLeft (st_db s) = None"
    by (simp_all add: storeInv_def ls_def)
  from h have n: "leafCount (st_tree s) = length (commitments (st_db s))"
    by (simp add: holds_def ls_def)
  from commit_Inr [OF c] obtain x row where
    t': "st_tree s' = snd (addLeaf sha (Text x) (st_tree s))"
    and rows: "commitments (st_db s') = commitments (st_db s) @ [row]"
    and rh: "row_leaf_hash row = hashLeaf sha (Text x)"
    and ri: "row_tree_index row = int (leafCount (st_tree s))"
    and w': "writesLeft (st_db s) = None \<longrightarrow> writesLeft (st_db s') = None"
    by auto
  have gx: "hash64 (hashLeaf sha (Text x))" using sha by (rule hash64_hashLeaf)
  have good': "\<forall>y\<in>set (ls @ [hashLeaf sha (Text x)]). hexHash y"
    using g gx by (auto simp: hash64_hexHash)
  have "holds sha (ls @ [hashLeaf sha (Text x)]) (snd (addLeafHash sha (hashLeaf sha (Text x)) (st_tree s)))"
    using addLeafHash_holds [OF sha32_nonempty [OF sha] good' h] by simp
  then have "holds sha (ls @ [hashLeaf sha (Text x)]) (st_tree s')"
    by (simp add: t' addLeaf_state)
  then show ?thesis
    using g gx ix w w' by (simp add: storeInv_def rows rh ri n ls_def)
qed

lemma storeInv_recordAnchor:
  assumes inv: "storeInv sha s" and r: "recordAnchor txid timestamp now s = (Inr a, s')"
  shows "storeInv sha s'"
  using inv recordAnchor_Inr [OF r] by (simp add: storeInv_def)

lemma sort_key_sorted: "sorted (map f xs) \<Longrightarrow> sort_key f xs = xs"
  by (rule sort_key_id_if_sorted)

lemma storeInv_persistedLeaves:
  assumes "storeInv sha s"
  shows "persistedLeaves (st_db s) = map row_leaf_hash (commitments (st_db s))"
    and "getAllCommitments (st_db s) = map rowToCommitment (commitments (st_db s))"
proof -
  from assms have ix: "map row_tree_index (commitments (st_db s))
      = map int [0..<length (commitments (st_db s))]"
    and g: "\<forall>h\<in>set (map row_leaf_hash (commitments (st_db s))). hash64 h"
    by (simp_all add: storeInv_def)
  have "sorted (map int [0..<length (commitments (st_db s))])"
    by (simp add: sorted_map sorted_wrt_iff_nth_less)
  with ix have srt: "sort_key row_tree_index (commitments (st_db s)) = commitments (st_db s)"
    by (intro sort_key_sorted) simp
  have "filter (\<lambda>h. h \<noteq> []) (map row_leaf_hash (commitments (st_db s)))
      = map row_leaf_hash (commitments (st_db s))"
    using g by (intro filter_True) (auto simp: hash64_def)
  then show "persistedLeaves (st_db s) = map row_leaf_hash (commitments (st_db s))"
    by (simp add: persistedLeaves_def srt)
  show "getAllCommitments (st_db s) = map rowToCommitment (commitments (st_db s))"
    by (simp add: getAllCommitments_def srt)
qed

lemma storeInv_reopen:
  assumes sha: "sha32 sha" and inv: "storeInv sha s"
    and o: "openStore sha keyPair (st_db s) = Inr s'"
  shows "storeInv sha s'"
proof -
  have hex: "\<forall>c\<in>set (getAllCommitments (st_db s)). \<forall>h. cm_leafHash c = Some h \<longrightarrow> h \<noteq> [] \<longrightarrow> hexHash h"
    using inv
    by (auto simp: storeInv_persistedLeaves(2) [OF inv] storeInv_def rowToCommitment_def
          hash64_hexHash split: if_splits)
  from rebuildTree_holds [OF sha32_nonempty [OF sha] hex _ holds_new]
  obtain t where t: "rebuildTree sha (getAllCommitments (st_db s)) newMerkleTree = Inr t"
    and h: "holds sha (persistedLeaves (st_db s)) t"
    by (auto simp: leafHashes_getAllCommitments)
  from o t have s': "s' = \<lparr>st_db = st_db s, st_tree = t, st_keyPair = keyPair\<rparr>"
    by (simp add: openStore_def)
  show ?thesis
    using inv h by (simp add: storeInv_def s' storeInv_persistedLeaves(1) [OF inv])
qed

lemma reachable_storeInv:
  assumes "sha32 sha" "reachable sha sign s"
  shows "storeInv sha s"
  using assms(2)
proof induction
  case (opened keyPair s)
  then show ?case by (rule storeInv_opened)
next
  case (committed s randomHex now input c s')
  then show ?case using storeInv_commit [OF assms(1)] by blast
next
  case (anchored s txid timestamp now a s')
  then show ?case using storeInv_recordAnchor by blast
next
  case (reopened s keyPair s')
  then show ?case using storeInv_reopen [OF assms(1)] by blast
qed

lemma sha32_sumHash: "sha32 sumHash"
  by (simp add: sha32_def sumHash_def)

section \<open>When the operations return normally\<close>

lemma getLatestAnchor_None: "getLatestAnchor d = None \<longleftrightarrow> anchors d = []"
proof -
  have "rev (sort_key an_anchorIndex (anchors d)) = [] \<longleftrightarrow> anchors d = []"
    by (metis length_sort list.size(3) length_0_conv rev_is_Nil_conv)
  then show ?thesis
    by (auto simp: getLatestAnchor_def split: list.splits)
qed

lemma getLatestAnchor_Some:
  assumes "getLatestAnchor d = Some l"
  shows "l \<in> set (anchors d) \<and> (\<forall>a\<in>set (anchors d). an_anchorIndex a \<le> an_anchorIndex l)"
proof -
  define ys where "ys = sort_key an_anchorIndex (anchors d)"
  from assms obtain rest where r: "rev ys = l # rest"
    by (auto simp: getLatestAnchor_def ys_def split: list.splits)
  then have ys: "ys = rev rest @ [l]" by (metis rev_rev_ident rev.simps(2))
  have s: "sorted (map an_anchorIndex ys)" by (simp add: ys_def)
  have set: "set ys = set (anchors d)" by (simp add: ys_def)
  have "\<forall>a\<in>set ys. an_anchorIndex a \<le> an_anchorIndex l"
    using s unfolding ys by (auto simp: sorted_append)
  moreover have "l \<in> set ys" by (simp add: ys)
  ultimately show ?thesis using set by simp
qed

lemma addLeaf_fst:
  "fst (addLeafHash sha (hashLeaf sha d) t) = Inr i
    \<Longrightarrow> fst (addLeaf sha d t) = Inr (hashLeaf sha d, leafCount t)"
  by (auto simp: addLeaf_def addLeafHash_def Let_def split: prod.splits sum.splits)

lemma commit_succeeds:
  assumes sha: "sha32 sha" and inv: "storeInv sha s"
    and p: "in_payload input \<noteq> JUndefined"
    and fresh: "''commit_'' @ randomHex \<notin> row_id ` set (commitments (st_db s))"
  shows "\<exists>c. fst (commit sha sign randomHex now input s) = Inr c"
proof -
  define c0 where "c0 = signedCommitment sign (privateKey (st_keyPair s)) randomHex now input"
  define x where "x = canonicalizeCommitment c0"
  define ls where "ls = map row_leaf_hash (commitments (st_db s))"
  from inv have h: "holds sha ls (st_tree s)" and g: "\<forall>h\<in>set ls. hash64 h"
    and w: "writesLeft (st_db s) = None"
    by (simp_all add: storeInv_def ls_def)
  have good': "\<forall>y\<in>set (ls @ [hashLeaf sha (Text x)]). hexHash y"
    using g hash64_hashLeaf [OF sha] by (auto simp: hash64_hexHash)
  from addLeafHash_holds [OF sha32_nonempty [OF sha] good' h]
  have "fst (addLeaf sha (Text x) (st_tree s)) = Inr (hashLeaf sha (Text x), leafCount (st_tree s))"
    by (intro addLeaf_fst) simp
  then obtain t' where a: "addLeaf sha (Text x) (st_tree s)
      = (Inr (hashLeaf sha (Text x), leafCount (st_tree s)), t')"
    by (cases "addLeaf sha (Text x) (st_tree s)") simp
  define c' where "c' = c0\<lparr>cm_leafHash := Some (hashLeaf sha (Text x)),
      cm_treeIndex := Some (int (leafCount (st_tree s)))\<rparr>"
  have cp: "cm_payload c' \<noteq> JUndefined" "cm_id c' = ''commit_'' @ randomHex"
    using p by (simp_all add: c'_def c0_def signedCommitment_def)
  obtain d1 where i: "insertCommitment c' (st_db s) = (Inr (), d1)" and w1: "writesLeft d1 = None"
    using cp fresh w by (simp add: insertCommitment_def runWrite_no_fault)
  obtain d2 where st: "saveTreeState (getState t') d1 = (Inr (), d2)" and w2: "writesLeft d2 = None"
    using w1 by (simp add: saveTreeState_no_fault)
  obtain d3 where nd: "saveTreeNodes (getAllNodes t') d2 = (Inr (), d3)"
    using saveTreeNodes_frame [of "getAllNodes t'" d2] w2
    by (cases "saveTreeNodes (getAllNodes t') d2") auto
  have "transaction
      (andThen (insertCommitment c')
         (andThen (saveTreeState (getState t')) (saveTreeNodes (getAllNodes t')))) (st_db s)
      = (Inr (), d3)"
    by (simp add: transaction_def andThen_def i st nd)
  then have "fst (commit sha sign randomHex now input s) = Inr c'"
    unfolding commit_unfold c0_def [symmetric] x_def [symmetric]
    by (simp add: a c'_def [symmetric])
  then show ?thesis by blast
qed

lemma recordAnchor_succeeds:
  assumes inv: "storeInv sha s" and ne: "commitments (st_db s) \<noteq> []"
    and fresh: "txid \<notin> an_txid ` set (anchors (st_db s))"
  shows "\<exists>a. fst (recordAnchor txid timestamp now s) = Inr a"
proof -
  define ls where "ls = map row_leaf_hash (commitments (st_db s))"
  from inv have h: "holds sha ls (st_tree s)" and w: "writesLeft (st_db s) = None"
    by (simp_all add: storeInv_def ls_def)
  from ne have "ls \<noteq> []" by (simp add: ls_def)
  with getRoot_holds [OF h] obtain rootHash where root: "getRoot (st_tree s) = Some rootHash"
    by simp
  define anchor where "anchor =
      \<lparr>an_txid = txid, an_blockHeight = None,
       an_timestamp = (case timestamp of Some ts \<Rightarrow> ts | None \<Rightarrow> now),
       an_rootHash = rootHash,
       an_commitmentCount = leafCount (st_tree s),
       an_anchorIndex =
         (case getLatestAnchor (st_db s) of Some a \<Rightarrow> an_anchorIndex a | None \<Rightarrow> -1) + 1,
       an_previousAnchor = map_option an_txid (getLatestAnchor (st_db s))\<rparr>"
  have idx: "an_anchorIndex anchor \<notin> an_anchorIndex ` set (anchors (st_db s))"
  proof (cases "getLatestAnchor (st_db s)")
    case None
    then show ?thesis by (simp add: getLatestAnchor_None)
  next
    case (Some l)
    from getLatestAnchor_Some [OF Some]
    have "\<forall>a\<in>set (anchors (st_db s)). an_anchorIndex a < an_anchorIndex l + 1" by auto
    then show ?thesis by (auto simp: anchor_def Some)
  qed
  obtain d1 where i: "insertAnchor anchor (st_db s) = (Inr (), d1)" and w1: "writesLeft d1 = None"
    using idx fresh w by (simp add: insertAnchor_def runWrite_no_fault anchor_def)
  have "fst (recordAnchor txid timestamp now s) = Inr anchor"
    using root i w1
    by (simp add: recordAnchor_def Let_def getState_def anchor_def [symmetric]
        saveTreeState_no_fault)
  then show ?thesis by blast
qed

subsection \<open>Claim C4\<close>

text \<open>
  C4, as amended. The anchor that \<^verbatim>\<open>recordAnchor(txid)\<close> records takes its \<open>rootHash\<close> and
  \<open>commitmentCount\<close> from the tree as it is when \<^verbatim>\<open>recordAnchor\<close> runs (which is the tree of the
  payload assembly only if nothing was committed in between); its \<open>anchorIndex\<close> is the
  index of the last anchor plus one (0 for the first anchor) and its \<open>previousAnchor\<close> is the
  last anchor's \<open>txid\<close>, if there is one.
\<close>

theorem recordAnchor_reads_current_tree:
  assumes "recordAnchor txid timestamp now s = (Inr a, s')"
  shows "getRoot (st_tree s) = Some (an_rootHash a)
    \<and> an_commitmentCount a = leafCount (st_tree s)
    \<and> an_anchorIndex a =
        (case getLatestAnchor (st_db s) of Some l \<Rightarrow> an_anchorIndex l + 1 | None \<Rightarrow> 0)
    \<and> an_previousAnchor a = map_option an_txid (getLatestAnchor (st_db s))
    \<and> an_txid a = txid
    \<and> anchors (st_db s') = anchors (st_db s) @ [a]"
  using recordAnchor_Inr [OF assms] by simp

section \<open>The example stores\<close>

lemma demoStore0_reachable: "reachable sumHash demoSign demoStore0"
  by (rule reachable.opened [of sumHash demoKeyPair])
     (simp add: openStore_def getAllCommitments_def emptyDatabase_def demoStore0_def)

lemma demoStore0_rows: "commitments (st_db demoStore0) = []" "anchors (st_db demoStore0) = []"
  by (simp_all add: demoStore0_def emptyDatabase_def)

lemma demoInput_payload: "in_payload demoInput \<noteq> JUndefined"
  by (simp add: demoInput_def)

lemma demoStore1_commit:
  "\<exists>c. commit sumHash demoSign ''000000000000000000000001'' 1700000000000 demoInput demoStore0
    = (Inr c, demoStore1)"
proof -
  have "\<exists>c. fst (commit sumHash demoSign ''000000000000000000000001'' 1700000000000 demoInput demoStore0) = Inr c"
    by (rule commit_succeeds [OF sha32_sumHash reachable_storeInv [OF sha32_sumHash demoStore0_reachable]
          demoInput_payload]) (simp add: demoStore0_rows)
  then show ?thesis
    unfolding demoStore1_def
    by (cases "commit sumHash demoSign ''000000000000000000000001'' 1700000000000 demoInput demoStore0") auto
qed

lemma demoStore1_reachable: "reachable sumHash demoSign demoStore1"
  using demoStore1_commit reachable.committed [OF demoStore0_reachable] by blast

lemma demoStore1_rows:
  "map row_id (commitments (st_db demoStore1)) = [''commit_000000000000000000000001'']"
  "anchors (st_db demoStore1) = []"
  "leafCount (st_tree demoStore1) = 1"
proof -
  from demoStore1_commit obtain c where
    c: "commit sumHash demoSign ''000000000000000000000001'' 1700000000000 demoInput demoStore0
      = (Inr c, demoStore1)" by blast
  from commit_Inr [OF c] demoStore0_rows
  show "map row_id (commitments (st_db demoStore1)) = [''commit_000000000000000000000001'']"
    "anchors (st_db demoStore1) = []"
    by auto
  then have "length (commitments (st_db demoStore1)) = 1"
    by (metis length_map length_Cons list.size(3) One_nat_def)
  moreover have "storeInv sumHash demoStore1"
    by (rule reachable_storeInv [OF sha32_sumHash demoStore1_reachable])
  ultimately show "leafCount (st_tree demoStore1) = 1"
    by (simp add: storeInv_def holds_def)
qed

lemma demoStore2_commit:
  "\<exists>c. commit sumHash demoSign ''000000000000000000000002'' 1700000000500 demoInput demoStore1
    = (Inr c, demoStore2)"
proof -
  have "''commit_'' @ ''000000000000000000000002'' \<notin> set (map row_id (commitments (st_db demoStore1)))"
    unfolding demoStore1_rows by simp
  then have "\<exists>c. fst (commit sumHash demoSign ''000000000000000000000002'' 1700000000500 demoInput demoStore1) = Inr c"
    by (intro commit_succeeds [OF sha32_sumHash reachable_storeInv [OF sha32_sumHash demoStore1_reachable]
          demoInput_payload]) simp
  then show ?thesis
    unfolding demoStore2_def
    by (cases "commit sumHash demoSign ''000000000000000000000002'' 1700000000500 demoInput demoStore1") auto
qed

lemma demoStore2_reachable: "reachable sumHash demoSign demoStore2"
  using demoStore2_commit reachable.committed [OF demoStore1_reachable] by blast

lemma demoStore2_rows:
  "anchors (st_db demoStore2) = []" "leafCount (st_tree demoStore2) = 2"
  "commitments (st_db demoStore2) \<noteq> []"
proof -
  from demoStore2_commit obtain c where
    c: "commit sumHash demoSign ''000000000000000000000002'' 1700000000500 demoInput demoStore1
      = (Inr c, demoStore2)" by blast
  from commit_Inr [OF c] demoStore1_rows(2)
  show "anchors (st_db demoStore2) = []" by auto
  from commit_Inr [OF c] obtain row where
    r: "commitments (st_db demoStore2) = commitments (st_db demoStore1) @ [row]" by auto
  then show "commitments (st_db demoStore2) \<noteq> []" by simp
  have "length (commitments (st_db demoStore1)) = 1"
    using demoStore1_rows(1) by (metis length_map length_Cons list.size(3) One_nat_def)
  with r have "length (commitments (st_db demoStore2)) = 2" by simp
  moreover have "storeInv sumHash demoStore2"
    by (rule reachable_storeInv [OF sha32_sumHash demoStore2_reachable])
  ultimately show "leafCount (st_tree demoStore2) = 2"
    by (simp add: storeInv_def holds_def)
qed

text \<open>The witness of \<open>recordAnchor_reads_current_tree\<close>, and the counterexample to C4 as
  claimed: the payload is assembled on \<open>demoStore1\<close>, whose tree has one leaf; a commit
  follows; \<^verbatim>\<open>recordAnchor\<close> then records a commitment count of 2, the count at recording
  time.\<close>

theorem recordAnchor_reads_current_tree_witness:
  "\<exists>a s'. recordAnchor demoTxid None 1700000000900 demoStore2 = (Inr a, s')
    \<and> getRoot (st_tree demoStore2) = Some (an_rootHash a)
    \<and> an_commitmentCount a = leafCount (st_tree demoStore2)
    \<and> an_anchorIndex a =
        (case getLatestAnchor (st_db demoStore2) of Some l \<Rightarrow> an_anchorIndex l + 1 | None \<Rightarrow> 0)
    \<and> an_previousAnchor a = map_option an_txid (getLatestAnchor (st_db demoStore2))
    \<and> an_txid a = demoTxid
    \<and> anchors (st_db s') = anchors (st_db demoStore2) @ [a]"
proof -
  have "\<exists>a. fst (recordAnchor demoTxid None 1700000000900 demoStore2) = Inr a"
    by (rule recordAnchor_succeeds [OF reachable_storeInv [OF sha32_sumHash demoStore2_reachable]
          demoStore2_rows(3)]) (simp add: demoStore2_rows)
  then obtain a s' where r: "recordAnchor demoTxid None 1700000000900 demoStore2 = (Inr a, s')"
    by (cases "recordAnchor demoTxid None 1700000000900 demoStore2") auto
  from recordAnchor_reads_current_tree [OF r] r show ?thesis by blast
qed

section \<open>The anchor payload\<close>

lemma split256: "(m::nat) div 256 ^ k = (m div 256 ^ Suc k) * 256 + m div 256 ^ k mod 256"
proof -
  have "m div 256 ^ Suc k = m div 256 ^ k div 256"
    by (simp add: div_mult2_eq [symmetric] mult.commute)
  then show ?thesis by simp
qed

lemma beValue_uint32BE: "beValue (uint32BE n) = n mod 2 ^ 32"
proof -
  define w where "w = (of_nat n :: 32 word)"
  define m where "m = unat w"
  have m: "m = n mod 2 ^ 32" by (simp add: m_def w_def unat_of_nat)
  have b: "unat (ucast (drop_bit (8 * k) w) :: byte) = m div 256 ^ k mod 256" for k
  proof -
    have "unat (ucast (drop_bit (8 * k) w) :: byte) = unat (drop_bit (8 * k) w) mod 256"
      by (simp add: unsigned_ucast_eq take_bit_eq_mod)
    also have "unat (drop_bit (8 * k) w) = m div 2 ^ (8 * k)"
      unfolding unat_drop_bit_eq m_def by (simp add: drop_bit_eq_div)
    also have "(2::nat) ^ (8 * k) = 256 ^ k" by (simp add: power_mult)
    finally show ?thesis .
  qed
  have b0: "unat (ucast w :: byte) = m mod 256"
    by (simp add: m_def unsigned_ucast_eq take_bit_eq_mod)
  have lt: "m < 256 ^ 4" unfolding m_def using unsigned_less [of w] by simp
  have e: "beValue (uint32BE n)
    = ((m div 256 ^ 3 mod 256 * 256 + m div 256 ^ 2 mod 256) * 256 + m div 256 ^ 1 mod 256) * 256
       + m div 256 ^ 0 mod 256"
    using b [of 3] b [of 2] b [of 1] b0
    by (simp add: beValue_def uint32BE_def Let_def w_def [symmetric])
  have z: "m div 256 ^ 3 mod 256 = m div 256 ^ 3" using lt
    by (simp add: less_mult_imp_div_less)
  have s0: "m div 256 ^ 0 = (m div 256 ^ 1) * 256 + m div 256 ^ 0 mod 256"
    using split256 [of m 0] by simp
  have s1: "m div 256 ^ 1 = (m div 256 ^ 2) * 256 + m div 256 ^ 1 mod 256"
    using split256 [of m 1] by (simp add: numeral_2_eq_2)
  have s2: "m div 256 ^ 2 = (m div 256 ^ 3) * 256 + m div 256 ^ 2 mod 256"
    using split256 [of m 2] by (simp add: numeral_3_eq_3)
  have "beValue (uint32BE n) = m div 256 ^ 0"
    unfolding e z using s0 s1 s2 by presburger
  then show ?thesis by (simp add: m)
qed

lemma buildAnchorPayload_Inr:
  assumes sha: "sha32 sha" and inv: "storeInv sha s" and ne: "commitments (st_db s) \<noteq> []"
    and tx: "\<And>a. getLatestAnchor (st_db s) = Some a \<Longrightarrow> hash64 (an_txid a)"
  shows "\<exists>rootHash rootBytes prevBytes.
      getRoot (st_tree s) = Some rootHash \<and> hexToBytes rootHash = Inr rootBytes
    \<and> length rootBytes = 32 \<and> length prevBytes = 32
    \<and> (case getLatestAnchor (st_db s) of
          None \<Rightarrow> prevBytes = replicate 32 0
        | Some a \<Rightarrow> hexToBytes (an_txid a) = Inr prevBytes)
    \<and> getCommitmentCount (st_db s) = leafCount (st_tree s)
    \<and> buildAnchorPayload s
        = Inr (utf8Encode ''BSV-ANCHOR'' @ [1] @ rootBytes
               @ uint32BE (leafCount (st_tree s)) @ prevBytes)"
proof -
  let ?ls = "map row_leaf_hash (commitments (st_db s))"
  from inv have h: "holds sha ?ls (st_tree s)" and good: "\<forall>h\<in>set ?ls. hash64 h"
    by (simp_all add: storeInv_def)
  from ne have ls: "?ls \<noteq> []" by simp
  define r where "r = nodeHash sha ?ls (heightOf (length ?ls)) 0"
  from getRoot_holds [OF h] ls have root: "getRoot (st_tree s) = Some r" by (simp add: r_def)
  from ls have "0 * 2 ^ heightOf (length ?ls) < length ?ls" by simp
  from hash64_nodeHash [OF sha good this] have r64: "hash64 r" by (simp add: r_def)
  then have rne: "r \<noteq> []" by (auto simp: hash64_def)
  from hash64_decodes [OF r64] obtain rb where rb: "hexToBytes r = Inr rb" "length rb = 32"
    by blast
  have cnt: "getCommitmentCount (st_db s) = leafCount (st_tree s)"
    using h by (simp add: getCommitmentCount_def holds_def)
  have tr: "truthy (Some r) = Some r" using rne by (simp add: truthy_def)
  show ?thesis
  proof (cases "getLatestAnchor (st_db s)")
    case None
    have "buildAnchorPayload s
        = Inr (utf8Encode ''BSV-ANCHOR'' @ [1] @ rb @ uint32BE (leafCount (st_tree s))
               @ replicate 32 0)"
      unfolding buildAnchorPayload_def root tr by (simp add: Let_def rb None cnt)
    with root rb None cnt show ?thesis by simp
  next
    case (Some a)
    from hash64_decodes [OF tx [OF Some]] obtain pb where
      pb: "hexToBytes (an_txid a) = Inr pb" "length pb = 32" by blast
    have "buildAnchorPayload s
        = Inr (utf8Encode ''BSV-ANCHOR'' @ [1] @ rb @ uint32BE (leafCount (st_tree s)) @ pb)"
      unfolding buildAnchorPayload_def root tr by (simp add: Let_def rb Some pb cnt)
    with root rb Some pb cnt show ?thesis by simp
  qed
qed

lemma length_uint32BE: "length (uint32BE n) = 4"
  by (simp add: uint32BE_def Let_def)

lemma length_protocol: "length (utf8Encode ''BSV-ANCHOR'') = 10"
  by (simp add: utf8Encode_def)

lemma demoStore1_anchor:
  "\<exists>a. recordAnchor txid None now demoStore1 = (Inr a, snd (recordAnchor txid None now demoStore1))
     \<and> an_txid a = txid \<and> an_commitmentCount a = 1 \<and> an_anchorIndex a = 0
     \<and> an_previousAnchor a = None
     \<and> getRoot (st_tree demoStore1) = Some (an_rootHash a)
     \<and> anchors (st_db (snd (recordAnchor txid None now demoStore1))) = [a]
     \<and> commitments (st_db (snd (recordAnchor txid None now demoStore1)))
         = commitments (st_db demoStore1)
     \<and> st_tree (snd (recordAnchor txid None now demoStore1)) = st_tree demoStore1"
proof -
  have ne: "commitments (st_db demoStore1) \<noteq> []" using demoStore1_rows(1) by auto
  have "\<exists>a. fst (recordAnchor txid None now demoStore1) = Inr a"
    by (rule recordAnchor_succeeds [OF reachable_storeInv [OF sha32_sumHash demoStore1_reachable] ne])
       (simp add: demoStore1_rows)
  then obtain a where r: "recordAnchor txid None now demoStore1
      = (Inr a, snd (recordAnchor txid None now demoStore1))"
    by (cases "recordAnchor txid None now demoStore1") auto
  have l: "getLatestAnchor (st_db demoStore1) = None"
    by (simp add: getLatestAnchor_None demoStore1_rows)
  from recordAnchor_Inr [OF r] r show ?thesis
    by (intro exI [of _ a]) (simp add: l demoStore1_rows)
qed

lemma demoStore1_anchor_reachable:
  "reachable sumHash demoSign (snd (recordAnchor txid None now demoStore1))"
  using demoStore1_anchor [of txid now] reachable.anchored [OF demoStore1_reachable] by blast






text \<open>C4, as claimed, fails. The payload assembled on \<open>demoStore1\<close> carries the commitment
  count 1; a commit follows, giving \<open>demoStore2\<close>; \<^verbatim>\<open>recordAnchor\<close> then records the commitment
  count 2, the leaf count at recording time.\<close>

theorem anchor_snapshot_at_recording_time:
  "map_sum id payloadCount (buildAnchorPayload demoStore1) = Inr 1
   \<and> snd (commit sumHash demoSign ''000000000000000000000002'' 1700000000500 demoInput demoStore1)
       = demoStore2
   \<and> map_sum id an_commitmentCount (fst (recordAnchor demoTxid None 1700000000900 demoStore2))
       = Inr 2"
proof -
  have ne: "commitments (st_db demoStore1) \<noteq> []" using demoStore1_rows(1) by auto
  have none: "getLatestAnchor (st_db demoStore1) = Some a \<Longrightarrow> hash64 (an_txid a)" for a
    by (simp add: getLatestAnchor_None [THEN iffD2, OF demoStore1_rows(2)])
  from buildAnchorPayload_Inr [OF sha32_sumHash
      reachable_storeInv [OF sha32_sumHash demoStore1_reachable] ne none]
  obtain rootBytes prevBytes where len: "length rootBytes = 32"
    and p: "buildAnchorPayload demoStore1
        = Inr (utf8Encode ''BSV-ANCHOR'' @ [1] @ rootBytes
               @ uint32BE (leafCount (st_tree demoStore1)) @ prevBytes)"
    by blast
  have "payloadCount (utf8Encode ''BSV-ANCHOR'' @ [1] @ rootBytes
               @ uint32BE (leafCount (st_tree demoStore1)) @ prevBytes)
      = beValue (uint32BE (leafCount (st_tree demoStore1)))"
    by (simp add: payloadCount_def length_protocol len length_uint32BE)
  also have "\<dots> = 1" by (simp add: beValue_uint32BE demoStore1_rows)
  finally have 1: "map_sum id payloadCount (buildAnchorPayload demoStore1) = Inr 1"
    by (simp add: p)
  have "\<exists>a. fst (recordAnchor demoTxid None 1700000000900 demoStore2) = Inr a"
    by (rule recordAnchor_succeeds [OF reachable_storeInv [OF sha32_sumHash demoStore2_reachable]
          demoStore2_rows(3)]) (simp add: demoStore2_rows)
  then obtain a s' where r: "recordAnchor demoTxid None 1700000000900 demoStore2 = (Inr a, s')"
    by (cases "recordAnchor demoTxid None 1700000000900 demoStore2") auto
  from recordAnchor_Inr [OF r] have "an_commitmentCount a = 2" by (simp add: demoStore2_rows)
  with r have 2: "map_sum id an_commitmentCount
      (fst (recordAnchor demoTxid None 1700000000900 demoStore2)) = Inr 2" by simp
  from 1 2 show ?thesis by (simp add: demoStore2_def)
qed

section \<open>Binding a proof to an anchor\<close>


lemma find_row:
  assumes "find (\<lambda>row. row_id row = ident) rows = Some row"
  shows "\<exists>i<length rows. row = rows ! i \<and> row_id row = ident"
  using assms unfolding find_Some_iff by blast

lemma prove_reachable:
  assumes sha: "sha32 sha" and inv: "storeInv sha s"
  shows "prove s ident =
     (case getCommitment (st_db s) ident of
        None \<Rightarrow> None
      | Some c \<Rightarrow>
          (case find (\<lambda>a. int (an_commitmentCount a) > the (cm_treeIndex c))
                  (getAllAnchors (st_db s)) of
             None \<Rightarrow> None
           | Some a \<Rightarrow>
               Some \<lparr>cp_commitment = c,
                     cp_merkleProof = the (generateProof (st_tree s) (the (cm_treeIndex c))),
                     cp_anchor = \<lparr>ref_txid = an_txid a, ref_blockHeight = an_blockHeight a,
                                  ref_timestamp = an_timestamp a\<rparr>\<rparr>))"
    and "getCommitment (st_db s) ident = Some c \<Longrightarrow>
      \<exists>i p. cm_treeIndex c = Some (int i) \<and> i < leafCount (st_tree s)
        \<and> cm_leafHash c = Some (mp_leafHash p)
        \<and> generateProof (st_tree s) (int i) = Some p \<and> mp_leafIndex p = i
        \<and> getRoot (st_tree s) = Some (mp_rootHash p) \<and> verifyProof sha p = Inr True"
proof -
  let ?rows = "commitments (st_db s)"
  let ?ls = "map row_leaf_hash ?rows"
  from inv have h: "holds sha ?ls (st_tree s)" and good: "\<forall>h\<in>set ?ls. hash64 h"
    and idx: "map row_tree_index ?rows = map int [0..<length ?rows]"
    by (simp_all add: storeInv_def)
  from good have good': "\<forall>x\<in>set ?ls. hexHash x" by (auto intro: hash64_hexHash)
  have ne: "shaNonempty sha" by (rule sha32_nonempty [OF sha])
  have key: "\<exists>i p. cm_treeIndex c = Some (int i) \<and> i < leafCount (st_tree s)
        \<and> cm_leafHash c = Some (mp_leafHash p)
        \<and> generateProof (st_tree s) (int i) = Some p \<and> mp_leafIndex p = i
        \<and> getRoot (st_tree s) = Some (mp_rootHash p) \<and> verifyProof sha p = Inr True"
    if c: "getCommitment (st_db s) ident = Some c" for c
  proof -
    from c obtain row where row: "find (\<lambda>row. row_id row = ident) ?rows = Some row"
      and cr: "c = rowToCommitment row"
      by (auto simp: getCommitment_def)
    from find_row [OF row] obtain i where i: "i < length ?rows" "row = ?rows ! i" by blast
    from idx i have ti: "row_tree_index row = int i"
      by (metis (no_types, lifting) add.left_neutral length_map nth_map nth_upt)
    have hx: "hash64 (row_leaf_hash row)" using good i by auto
    then have lne: "row_leaf_hash row \<noteq> []" by (auto simp: hash64_def)
    from i have i': "i < length ?ls" by simp
    from generateProof_holds [OF ne good' h i'] obtain p where
      p: "leafCount (st_tree s) = length ?ls" "generateProof (st_tree s) (int i) = Some p"
        "mp_leafHash p = ?ls ! i" "mp_leafIndex p = i" "getRoot (st_tree s) = Some (mp_rootHash p)"
        "verifyProof sha p = Inr True"
      by blast
    show ?thesis
      using p i ti lne by (intro exI [of _ i] exI [of _ p]) (simp add: cr rowToCommitment_def)
  qed
  then show "getCommitment (st_db s) ident = Some c \<Longrightarrow>
      \<exists>i p. cm_treeIndex c = Some (int i) \<and> i < leafCount (st_tree s)
        \<and> cm_leafHash c = Some (mp_leafHash p)
        \<and> generateProof (st_tree s) (int i) = Some p \<and> mp_leafIndex p = i
        \<and> getRoot (st_tree s) = Some (mp_rootHash p) \<and> verifyProof sha p = Inr True" .
  show "prove s ident =
     (case getCommitment (st_db s) ident of
        None \<Rightarrow> None
      | Some c \<Rightarrow>
          (case find (\<lambda>a. int (an_commitmentCount a) > the (cm_treeIndex c))
                  (getAllAnchors (st_db s)) of
             None \<Rightarrow> None
           | Some a \<Rightarrow>
               Some \<lparr>cp_commitment = c,
                     cp_merkleProof = the (generateProof (st_tree s) (the (cm_treeIndex c))),
                     cp_anchor = \<lparr>ref_txid = an_txid a, ref_blockHeight = an_blockHeight a,
                                  ref_timestamp = an_timestamp a\<rparr>\<rparr>))"
  proof (cases "getCommitment (st_db s) ident")
    case None
    then show ?thesis by (simp add: prove_def)
  next
    case (Some c)
    from key [OF Some] obtain i p where "cm_treeIndex c = Some (int i)"
      "generateProof (st_tree s) (int i) = Some p" by blast
    then show ?thesis by (simp add: prove_def Some split: option.splits)
  qed
qed

lemma anchoredStore1_facts:
  "\<exists>a. anchors (st_db anchoredStore1) = [a] \<and> an_txid a = demoTxid
     \<and> an_commitmentCount a = 1 \<and> an_anchorIndex a = 0
     \<and> getRoot (st_tree demoStore1) = Some (an_rootHash a)"
  "commitments (st_db anchoredStore1) = commitments (st_db demoStore1)"
  "st_tree anchoredStore1 = st_tree demoStore1"
  "reachable sumHash demoSign anchoredStore1"
  using demoStore1_anchor [of demoTxid 1700000000100] demoStore1_anchor_reachable
  unfolding anchoredStore1_def by blast+

lemma anchoredStore2_commit:
  "\<exists>c. commit sumHash demoSign ''000000000000000000000002'' 1700000000500 demoInput anchoredStore1
    = (Inr c, anchoredStore2)"
proof -
  have "''commit_'' @ ''000000000000000000000002''
      \<notin> set (map row_id (commitments (st_db anchoredStore1)))"
    unfolding anchoredStore1_facts(2) demoStore1_rows by simp
  then have "\<exists>c. fst (commit sumHash demoSign ''000000000000000000000002'' 1700000000500
      demoInput anchoredStore1) = Inr c"
    by (intro commit_succeeds [OF sha32_sumHash
          reachable_storeInv [OF sha32_sumHash anchoredStore1_facts(4)] demoInput_payload]) simp
  then show ?thesis
    unfolding anchoredStore2_def
    by (cases "commit sumHash demoSign ''000000000000000000000002'' 1700000000500
          demoInput anchoredStore1") auto
qed

lemma anchoredStore2_reachable: "reachable sumHash demoSign anchoredStore2"
  using anchoredStore2_commit reachable.committed [OF anchoredStore1_facts(4)] by blast

lemma anchoredStore2_facts:
  "\<exists>a. anchors (st_db anchoredStore2) = [a] \<and> an_txid a = demoTxid
     \<and> an_commitmentCount a = 1 \<and> an_anchorIndex a = 0
     \<and> getRoot (st_tree demoStore1) = Some (an_rootHash a)"
  "map row_id (commitments (st_db anchoredStore2))
     = [''commit_000000000000000000000001'', ''commit_000000000000000000000002'']"
  "map row_tree_index (commitments (st_db anchoredStore2)) = [0, 1]"
  "leafCount (st_tree anchoredStore2) = 2"
proof -
  from anchoredStore2_commit obtain c where
    c: "commit sumHash demoSign ''000000000000000000000002'' 1700000000500 demoInput anchoredStore1
      = (Inr c, anchoredStore2)" by blast
  from commit_Inr [OF c] obtain row where
    r: "commitments (st_db anchoredStore2) = commitments (st_db anchoredStore1) @ [row]"
      "row_id row = ''commit_'' @ ''000000000000000000000002''"
      "anchors (st_db anchoredStore2) = anchors (st_db anchoredStore1)"
    by blast
  show "\<exists>a. anchors (st_db anchoredStore2) = [a] \<and> an_txid a = demoTxid
     \<and> an_commitmentCount a = 1 \<and> an_anchorIndex a = 0
     \<and> getRoot (st_tree demoStore1) = Some (an_rootHash a)"
    unfolding r(3) by (rule anchoredStore1_facts(1))
  show ids: "map row_id (commitments (st_db anchoredStore2))
     = [''commit_000000000000000000000001'', ''commit_000000000000000000000002'']"
    by (simp add: r anchoredStore1_facts(2) demoStore1_rows)
  then have len: "length (commitments (st_db anchoredStore2)) = 2"
    by (metis length_map length_Cons list.size(3) One_nat_def Suc_1)
  have inv: "storeInv sumHash anchoredStore2"
    by (rule reachable_storeInv [OF sha32_sumHash anchoredStore2_reachable])
  have u: "[0..<2] = [0, 1]" by (simp add: upt_rec)
  from inv show "map row_tree_index (commitments (st_db anchoredStore2)) = [0, 1]"
    by (simp add: storeInv_def len u)
  from inv show "leafCount (st_tree anchoredStore2) = 2"
    by (simp add: storeInv_def holds_def len)
qed


lemma canonicalizeCommitment_tree_fields:
  "canonicalizeCommitment (c\<lparr>cm_leafHash := h, cm_treeIndex := i\<rparr>) = canonicalizeCommitment c"
  by (simp add: canonicalizeCommitment_def canonical_def)

lemma jsonRoundTrip_demoInput: "jsonRoundTrip (in_payload demoInput) = in_payload demoInput"
  by (simp add: demoInput_def)

lemma demoStore1_row:
  "\<exists>row. commitments (st_db demoStore1) = [row]
     \<and> row_id row = ''commit_000000000000000000000001''
     \<and> row_leaf_hash row = hashLeaf sumHash (Text (canonicalizeCommitment demoCommitment))
     \<and> row_tree_index row = 0
     \<and> rowToCommitment row = demoCommitment
          \<lparr>cm_leafHash := Some (hashLeaf sumHash (Text (canonicalizeCommitment demoCommitment))),
            cm_treeIndex := Some 0\<rparr>"
proof -
  from demoStore1_commit obtain c where
    c: "commit sumHash demoSign ''000000000000000000000001'' 1700000000000 demoInput demoStore0
      = (Inr c, demoStore1)" by blast
  have k: "st_keyPair demoStore0 = demoKeyPair" "leafCount (st_tree demoStore0) = 0"
    by (simp_all add: demoStore0_def newMerkleTree_def)
  from commit_Inr [OF c] obtain x row where
    r: "commitments (st_db demoStore1) = commitments (st_db demoStore0) @ [row]"
      "row_leaf_hash row = hashLeaf sumHash (Text x)"
      "row_tree_index row = int (leafCount (st_tree demoStore0))"
      "row_id row = ''commit_'' @ ''000000000000000000000001''"
      "x = canonicalizeCommitment demoCommitment"
      "row_type row = in_type demoInput"
      "row_payload row = jsonRoundTrip (in_payload demoInput)"
      "row_timestamp row = 1700000000000"
      "row_signature row = cm_signature demoCommitment"
    unfolding k demoCommitment_def by blast
  have ne: "hashLeaf sumHash (Text x) \<noteq> []"
    using hexHash_hashLeaf [OF shaNonempty_sumHash, of "Text x"] by (simp add: hexHash_def)
  have "rowToCommitment row = demoCommitment
          \<lparr>cm_leafHash := Some (hashLeaf sumHash (Text (canonicalizeCommitment demoCommitment))),
            cm_treeIndex := Some 0\<rparr>"
    using ne unfolding rowToCommitment_def r jsonRoundTrip_demoInput k
    by (simp add: demoCommitment_def signedCommitment_def)
  with r show ?thesis by (intro exI [of _ row]) (simp add: demoStore0_rows k)
qed

lemma heightOf_1_2: "heightOf (Suc 0) = 0" "heightOf 2 = 1"
proof -
  show "heightOf (Suc 0) = 0" by (simp add: heightOf_def)
  have "ceilLog2 2 = Suc (ceilLog2 (Suc 0))" by (subst ceilLog2.simps) simp
  also have "ceilLog2 (Suc 0) = 0" by (subst ceilLog2.simps) simp
  finally show "heightOf 2 = 1" by (simp add: heightOf_def)
qed

lemma hashLeaf_sumHash_prefix: "take 2 (hashLeaf sumHash d) = ''00''"
  by (simp add: hashLeaf_def sumHash_def bytesToHex_def hexDigit_def)

lemma hashPair_sumHash_prefix:
  assumes "hexHash l" "hexHash r"
  shows "take 2 (hashPair sumHash l r) = ''01''"
proof -
  from assms obtain x y where "hexToBytes l = Inr x" "hexToBytes r = Inr y"
    by (auto simp: hexHash_def isHex_def split: sum.splits)
  then have "hexToBytes (l @ r) = Inr (x @ y)" by (rule hexToBytes_append)
  then show ?thesis
    by (simp add: hashPair_def hashInternal_def sumHash_def bytesToHex_def hexDigit_def)
qed

lemma anchoredStore2_rows:
  "\<exists>row1 row2 a. commitments (st_db anchoredStore2) = [row1, row2]
     \<and> row_id row1 = ''commit_000000000000000000000001''
     \<and> row_id row2 = ''commit_000000000000000000000002''
     \<and> row_tree_index row1 = 0 \<and> row_tree_index row2 = 1
     \<and> row_leaf_hash row1 = hashLeaf sumHash (Text (canonicalizeCommitment demoCommitment))
     \<and> rowToCommitment row1 = demoCommitment
          \<lparr>cm_leafHash := Some (hashLeaf sumHash (Text (canonicalizeCommitment demoCommitment))),
            cm_treeIndex := Some 0\<rparr>
     \<and> anchors (st_db anchoredStore2) = [a] \<and> an_txid a = demoTxid
     \<and> an_commitmentCount a = 1
     \<and> an_rootHash a = row_leaf_hash row1"
proof -
  from demoStore1_row obtain row1 where
    r1: "commitments (st_db demoStore1) = [row1]"
      "row_id row1 = ''commit_000000000000000000000001''"
      "row_leaf_hash row1 = hashLeaf sumHash (Text (canonicalizeCommitment demoCommitment))"
      "row_tree_index row1 = 0"
      "rowToCommitment row1 = demoCommitment
          \<lparr>cm_leafHash := Some (hashLeaf sumHash (Text (canonicalizeCommitment demoCommitment))),
            cm_treeIndex := Some 0\<rparr>"
    by blast
  from anchoredStore2_commit obtain c where
    c: "commit sumHash demoSign ''000000000000000000000002'' 1700000000500 demoInput anchoredStore1
      = (Inr c, anchoredStore2)" by blast
  from commit_Inr [OF c] obtain row2 where
    r2: "commitments (st_db anchoredStore2) = commitments (st_db anchoredStore1) @ [row2]"
      "row_id row2 = ''commit_'' @ ''000000000000000000000002''"
      "row_tree_index row2 = int (leafCount (st_tree anchoredStore1))"
    by blast
  from anchoredStore2_facts(1) obtain a where
    a: "anchors (st_db anchoredStore2) = [a]" "an_txid a = demoTxid" "an_commitmentCount a = 1"
      "getRoot (st_tree demoStore1) = Some (an_rootHash a)"
    by blast
  have inv: "storeInv sumHash demoStore1"
    by (rule reachable_storeInv [OF sha32_sumHash demoStore1_reachable])
  then have "holds sumHash [row_leaf_hash row1] (st_tree demoStore1)"
    by (simp add: storeInv_def r1(1))
  from getRoot_holds [OF this] have "getRoot (st_tree demoStore1) = Some (row_leaf_hash row1)"
    by (simp add: heightOf_1_2)
  with a(4) have root: "an_rootHash a = row_leaf_hash row1" by simp
  show ?thesis
    using r1 r2 a(1,2,3) root
    by (intro exI [of _ row1] exI [of _ row2] exI [of _ a])
       (simp add: anchoredStore1_facts(2,3) demoStore1_rows(3))
qed

lemma anchoredStore2_prove:
  "\<exists>row1 a p. prove anchoredStore2 ''commit_000000000000000000000001''
       = Some \<lparr>cp_commitment = rowToCommitment row1, cp_merkleProof = p,
               cp_anchor = \<lparr>ref_txid = demoTxid, ref_blockHeight = an_blockHeight a,
                            ref_timestamp = an_timestamp a\<rparr>\<rparr>
     \<and> rowToCommitment row1 = demoCommitment
          \<lparr>cm_leafHash := Some (hashLeaf sumHash (Text (canonicalizeCommitment demoCommitment))),
            cm_treeIndex := Some 0\<rparr>
     \<and> mp_leafHash p = hashLeaf sumHash (Text (canonicalizeCommitment demoCommitment))
     \<and> verifyProof sumHash p = Inr True
     \<and> take 2 (mp_rootHash p) = ''01''
     \<and> anchors (st_db anchoredStore2) = [a] \<and> an_txid a = demoTxid
     \<and> take 2 (an_rootHash a) = ''00''"
proof -
  let ?id = "''commit_000000000000000000000001''"
  let ?h = "hashLeaf sumHash (Text (canonicalizeCommitment demoCommitment))"
  from anchoredStore2_rows obtain row1 row2 a where
    rows: "commitments (st_db anchoredStore2) = [row1, row2]"
    and id1: "row_id row1 = ?id"
    and lh: "row_leaf_hash row1 = ?h"
    and c1: "rowToCommitment row1 = demoCommitment\<lparr>cm_leafHash := Some ?h, cm_treeIndex := Some 0\<rparr>"
    and a: "anchors (st_db anchoredStore2) = [a]" "an_txid a = demoTxid"
      "an_commitmentCount a = 1" "an_rootHash a = row_leaf_hash row1"
    by blast
  have inv: "storeInv sumHash anchoredStore2"
    by (rule reachable_storeInv [OF sha32_sumHash anchoredStore2_reachable])
  have g: "getCommitment (st_db anchoredStore2) ?id = Some (rowToCommitment row1)"
    by (simp add: getCommitment_def rows id1)
  note pr = prove_reachable [OF sha32_sumHash inv, of ?id]
  from pr(2) [OF g] obtain i p where
    p: "cm_treeIndex (rowToCommitment row1) = Some (int i)"
      "cm_leafHash (rowToCommitment row1) = Some (mp_leafHash p)"
      "generateProof (st_tree anchoredStore2) (int i) = Some p"
      "getRoot (st_tree anchoredStore2) = Some (mp_rootHash p)"
      "verifyProof sumHash p = Inr True"
    by blast
  from p(1) have i: "i = 0" by (simp add: c1)
  from p(2) have leaf: "mp_leafHash p = ?h" by (simp add: c1)
  have f: "find (\<lambda>b. int (an_commitmentCount b) > the (cm_treeIndex (rowToCommitment row1)))
      (getAllAnchors (st_db anchoredStore2)) = Some a"
    by (simp add: getAllAnchors_def a c1)
  have 1: "prove anchoredStore2 ?id
       = Some \<lparr>cp_commitment = rowToCommitment row1, cp_merkleProof = p,
               cp_anchor = \<lparr>ref_txid = demoTxid, ref_blockHeight = an_blockHeight a,
                            ref_timestamp = an_timestamp a\<rparr>\<rparr>"
    unfolding pr(1) g using f p(3) by (simp add: p(1) a(2))
  from inv have h: "holds sumHash [row_leaf_hash row1, row_leaf_hash row2] (st_tree anchoredStore2)"
    and good: "hash64 (row_leaf_hash row1)" "hash64 (row_leaf_hash row2)"
    by (simp_all add: storeInv_def rows)
  have h2: "heightOf (length [row_leaf_hash row1, row_leaf_hash row2]) = Suc 0"
    using heightOf_1_2(2) by (simp add: numeral_2_eq_2)
  from getRoot_holds [OF h] p(4)
  have "mp_rootHash p = nodeHash sumHash [row_leaf_hash row1, row_leaf_hash row2] (Suc 0) 0"
    unfolding h2 by simp
  then have "mp_rootHash p = hashPair sumHash (row_leaf_hash row1) (row_leaf_hash row2)"
    by simp
  then have 2: "take 2 (mp_rootHash p) = ''01''"
    using hashPair_sumHash_prefix [OF hash64_hexHash [OF good(1)] hash64_hexHash [OF good(2)]]
    by simp
  have 3: "take 2 (an_rootHash a) = ''00''"
    unfolding a(4) lh by (rule hashLeaf_sumHash_prefix)
  from 1 c1 leaf p(5) 2 a(1,2) 3 show ?thesis by blast
qed


text \<open>C2. The claim: the root a verified commitment proof folds to equals the \<^verbatim>\<open>rootHash\<close> of
  the anchor the proof is bound to, and a proof whose computed root differs is rejected. It
  fails on the store after a commit, an anchor and a second commit. The proof \<^verbatim>\<open>prove\<close> returns
  for the first commitment is bound to the anchor \<open>demoTxid\<close>, whose \<^verbatim>\<open>rootHash\<close> is the root of
  the one-leaf tree (it starts with \<^verbatim>\<open>00\<close>, the hash of a leaf). The root its Merkle proof folds
  to is the root of the two-leaf tree (it starts with \<^verbatim>\<open>01\<close>, the hash of an internal node).
  \<^verbatim>\<open>verifyInclusion\<close> and \<^verbatim>\<open>verify\<close> accept it: neither compares the computed root with an
  anchor.\<close>

theorem accepted_proof_root_differs_from_anchor_root:
  "prove anchoredStore2 ''commit_000000000000000000000001'' \<noteq> None
   \<and> verifyInclusion sumHash (the (prove anchoredStore2 ''commit_000000000000000000000001''))
       = Inr True
   \<and> verify sumHash demoVerify (the (prove anchoredStore2 ''commit_000000000000000000000001''))
        (publicKey demoKeyPair) = Inr True
   \<and> ref_txid (cp_anchor (the (prove anchoredStore2 ''commit_000000000000000000000001'')))
       = demoTxid
   \<and> map an_txid (anchors (st_db anchoredStore2)) = [demoTxid]
   \<and> map (take 2 \<circ> an_rootHash) (anchors (st_db anchoredStore2)) = [''00'']
   \<and> take 2 (mp_rootHash (cp_merkleProof
        (the (prove anchoredStore2 ''commit_000000000000000000000001'')))) = ''01''
   \<and> map an_rootHash (anchors (st_db anchoredStore2))
       \<noteq> [mp_rootHash (cp_merkleProof
            (the (prove anchoredStore2 ''commit_000000000000000000000001'')))]"
proof -
  let ?h = "hashLeaf sumHash (Text (canonicalizeCommitment demoCommitment))"
  from anchoredStore2_prove obtain row1 a p where
    pr: "prove anchoredStore2 ''commit_000000000000000000000001''
       = Some \<lparr>cp_commitment = rowToCommitment row1, cp_merkleProof = p,
               cp_anchor = \<lparr>ref_txid = demoTxid, ref_blockHeight = an_blockHeight a,
                            ref_timestamp = an_timestamp a\<rparr>\<rparr>"
    and c1: "rowToCommitment row1 = demoCommitment\<lparr>cm_leafHash := Some ?h, cm_treeIndex := Some 0\<rparr>"
    and leaf: "mp_leafHash p = ?h"
    and vp: "verifyProof sumHash p = Inr True"
    and root: "take 2 (mp_rootHash p) = ''01''"
    and a: "anchors (st_db anchoredStore2) = [a]" "an_txid a = demoTxid"
      "take 2 (an_rootHash a) = ''00''"
    by blast
  have can: "canonicalizeCommitment (rowToCommitment row1) = canonicalizeCommitment demoCommitment"
    unfolding c1 by (rule canonicalizeCommitment_tree_fields)
  have vi: "verifyInclusion sumHash \<lparr>cp_commitment = rowToCommitment row1, cp_merkleProof = p,
               cp_anchor = \<lparr>ref_txid = demoTxid, ref_blockHeight = an_blockHeight a,
                            ref_timestamp = an_timestamp a\<rparr>\<rparr> = Inr True"
    by (simp add: verifyInclusion_def vp can leaf Let_def)
  have sig: "demoVerify (canonicalizeCommitment ((rowToCommitment row1)\<lparr>cm_signature := ''''\<rparr>))
      (cm_signature (rowToCommitment row1)) (publicKey demoKeyPair)"
    unfolding c1
    by (simp add: demoVerify_def demoCommitment_def signedCommitment_def
          canonicalizeCommitment_def canonical_def)
  have v: "verify sumHash demoVerify \<lparr>cp_commitment = rowToCommitment row1, cp_merkleProof = p,
               cp_anchor = \<lparr>ref_txid = demoTxid, ref_blockHeight = an_blockHeight a,
                            ref_timestamp = an_timestamp a\<rparr>\<rparr> (publicKey demoKeyPair) = Inr True"
    using sig by (simp add: verify_def vi Let_def)
  have ne: "an_rootHash a \<noteq> mp_rootHash p"
    using root a(3) by auto
  show ?thesis
    unfolding pr option.sel using vi v root a ne by simp
qed

end
